theory Spec2Isabelle
  imports Complex_Main "HOL-Library.Log_Nat"
begin

section \<open>The Q-criterion search of neighbor joining (\<open>skbio/tree/_c_nj.pyx\<close>)\<close>

text \<open>
  The source is one Cython function, \<open>nj_minq_cy(floating[:, :] dm, floating[:] sums)\<close>,
  compiled with \<open>boundscheck=False, wraparound=False\<close>.

  Modelling decisions.
  \<^item> A floating-point value is a real number, \<open>INFINITY\<close>, its negation or NaN.  An
    operation on two finite values computes the exact real result and rounds it to the
    element type of the buffers, \<open>float\<close> (binary32) or \<open>double\<close> (binary64): round to
    nearest, ties to even, with gradual underflow, and overflow to an infinity when the
    rounded result exceeds the largest finite value.  Each operation rounds on its own:
    no fused multiply-add and no excess precision.  The sign of a zero is not kept; no
    operation of this function can tell the two zeros apart.
  \<^item> The rounding is a parameter of the loop bodies.  The function itself runs them with
    the rounding of its element type; \<open>nj_minq_cy_exact\<close> runs the same bodies with no
    rounding, for the one statement that is about exact arithmetic.
  \<^item> A typed memoryview is its element type (\<open>float\<close> or \<open>double\<close>, the two members of
    the fused type \<open>floating\<close>) together with its contents.  \<open>dm.shape[0]\<close> is the number
    of rows.
  \<^item> Bounds checking is switched off, so an index outside a buffer is neither refused nor
    wrapped: the read has no defined result.  The model stops there with
    \<open>Unchecked_read\<close>, which is not an exception of the program.
  \<^item> The C locals \<open>min_i\<close>, \<open>min_j\<close> and \<open>min_q_plus\<close> are declared without a
    value.  What they hold on entry is a parameter of the model.
  \<^item> The buffers are part of the state the body runs on, so that what the body leaves
    in them can be stated.  The field for \<open>sums\<close> is named \<open>sums_v\<close>, since \<open>sums\<close> is
    taken by the library's series.
\<close>

subsection \<open>Floating-point values and operations\<close>

datatype floating = Fin real | Infinity | Neg_infinity | NaN

type_synonym rounding = "real \<Rightarrow> floating"

fun fl_neg :: "floating \<Rightarrow> floating" where
  "fl_neg (Fin a) = Fin (- a)"
| "fl_neg Infinity = Neg_infinity"
| "fl_neg Neg_infinity = Infinity"
| "fl_neg NaN = NaN"

fun fl_add :: "rounding \<Rightarrow> floating \<Rightarrow> floating \<Rightarrow> floating" where
  "fl_add r (Fin a) (Fin b) = r (a + b)"
| "fl_add r NaN y = NaN"
| "fl_add r x NaN = NaN"
| "fl_add r Infinity Neg_infinity = NaN"
| "fl_add r Neg_infinity Infinity = NaN"
| "fl_add r Infinity y = Infinity"
| "fl_add r x Infinity = Infinity"
| "fl_add r Neg_infinity y = Neg_infinity"
| "fl_add r x Neg_infinity = Neg_infinity"

definition fl_sub :: "rounding \<Rightarrow> floating \<Rightarrow> floating \<Rightarrow> floating" where
  "fl_sub r x y = fl_add r x (fl_neg y)"

text \<open>An infinity times a finite value: NaN at zero, otherwise an infinity of the product's sign.\<close>

definition inf_times :: "bool \<Rightarrow> real \<Rightarrow> floating" where
  "inf_times positive b =
     (if b = 0 then NaN else if (0 < b) = positive then Infinity else Neg_infinity)"

fun fl_mul :: "rounding \<Rightarrow> floating \<Rightarrow> floating \<Rightarrow> floating" where
  "fl_mul r (Fin a) (Fin b) = r (a * b)"
| "fl_mul r NaN y = NaN"
| "fl_mul r x NaN = NaN"
| "fl_mul r Infinity (Fin b) = inf_times True b"
| "fl_mul r Neg_infinity (Fin b) = inf_times False b"
| "fl_mul r (Fin a) Infinity = inf_times True a"
| "fl_mul r (Fin a) Neg_infinity = inf_times False a"
| "fl_mul r Infinity Infinity = Infinity"
| "fl_mul r Neg_infinity Neg_infinity = Infinity"
| "fl_mul r Infinity Neg_infinity = Neg_infinity"
| "fl_mul r Neg_infinity Infinity = Neg_infinity"

fun fl_less :: "floating \<Rightarrow> floating \<Rightarrow> bool" where
  "fl_less (Fin a) (Fin b) = (a < b)"
| "fl_less (Fin a) Infinity = True"
| "fl_less Neg_infinity (Fin b) = True"
| "fl_less Neg_infinity Infinity = True"
| "fl_less x y = False"

subsection \<open>Rounding to \<open>float\<close> and \<open>double\<close>\<close>

datatype ctype = C_float | C_double

fun precision :: "ctype \<Rightarrow> nat" where
  "precision C_float = 24"
| "precision C_double = 53"

fun emax :: "ctype \<Rightarrow> int" where
  "emax C_float = 127"
| "emax C_double = 1023"

definition emin :: "ctype \<Rightarrow> int" where
  "emin w = 1 - emax w"

definition pow2 :: "int \<Rightarrow> real" where
  "pow2 e = (if 0 \<le> e then 2 ^ nat e else 1 / 2 ^ nat (- e))"

text \<open>The binary exponent of a positive real \<open>a\<close>: \<open>pow2 (expo a) \<le> a < pow2 (expo a + 1)\<close>.\<close>

definition expo :: "real \<Rightarrow> int" where
  "expo a =
     (if 1 \<le> a then int (floorlog 2 (nat \<lfloor>a\<rfloor>)) - 1
      else - int (floorlog 2 (nat (\<lceil>1 / a\<rceil> - 1))))"

text \<open>Round to the nearest integer, ties to the even one.\<close>

definition rne :: "real \<Rightarrow> int" where
  "rne m =
     (let f = \<lfloor>m\<rfloor>; d = m - real_of_int f
      in if d < 1 / 2 then f else if 1 / 2 < d then f + 1 else if even f then f else f + 1)"

text \<open>The spacing of the values of type \<open>w\<close> around a positive real, subnormals included.\<close>

definition quantum :: "ctype \<Rightarrow> real \<Rightarrow> int" where
  "quantum w a = max (expo a) (emin w) - (int (precision w) - 1)"

definition nearest :: "ctype \<Rightarrow> real \<Rightarrow> real" where
  "nearest w x =
     (if x = 0 then 0
      else sgn x * (real_of_int (rne (\<bar>x\<bar> / pow2 (quantum w \<bar>x\<bar>))) * pow2 (quantum w \<bar>x\<bar>)))"

definition max_finite :: "ctype \<Rightarrow> real" where
  "max_finite w = (2 ^ precision w - 1) * pow2 (emax w - int (precision w) + 1)"

definition round_to :: "ctype \<Rightarrow> rounding" where
  "round_to w x =
     (let y = nearest w x
      in if max_finite w < y then Infinity
         else if y < - max_finite w then Neg_infinity
         else Fin y)"

subsection \<open>Buffers and the frame of the call\<close>

record view2d =
  itemtype2 :: ctype
  rows :: "floating list list"

record view1d =
  itemtype1 :: ctype
  elems :: "floating list"

datatype fault = Dtype_mismatch | Unchecked_read

record uninit =
  u_min_i :: int
  u_min_j :: int
  u_min_q_plus :: floating

record frame =
  dm :: "floating list list"
  sums_v :: "floating list"
  min_i :: int
  min_j :: int
  min_q :: floating
  min_q_plus :: floating

definition dm_at :: "frame \<Rightarrow> nat \<Rightarrow> nat \<Rightarrow> fault + floating" where
  "dm_at s i j =
     (if i < length (dm s) \<and> j < length (dm s ! i) then Inr (dm s ! i ! j)
      else Inl Unchecked_read)"

definition sums_at :: "frame \<Rightarrow> nat \<Rightarrow> fault + floating" where
  "sums_at s i = (if i < length (sums_v s) then Inr (sums_v s ! i) else Inl Unchecked_read)"

subsection \<open>The two loops\<close>

fun for_loop :: "nat list \<Rightarrow> (nat \<Rightarrow> frame \<Rightarrow> fault + frame) \<Rightarrow> frame \<Rightarrow> fault + frame" where
  "for_loop [] body s = Inr s"
| "for_loop (k # ks) body s =
     (case body k s of Inl e \<Rightarrow> Inl e | Inr s' \<Rightarrow> for_loop ks body s')"

text \<open>Lines 66 to 70: the body of \<open>for j in range(i + 1, n)\<close>.\<close>

definition inner_body :: "rounding \<Rightarrow> floating \<Rightarrow> nat \<Rightarrow> nat \<Rightarrow> frame \<Rightarrow> fault + frame" where
  "inner_body r n_2 i j s =
     (case dm_at s i j of
        Inl e \<Rightarrow> Inl e
      | Inr d \<Rightarrow>
         (case sums_at s j of
            Inl e \<Rightarrow> Inl e
          | Inr sj \<Rightarrow>
             (let q_plus = fl_sub r (fl_mul r d n_2) sj in
              if fl_less q_plus (min_q_plus s) then
                (case sums_at s i of
                   Inl e \<Rightarrow> Inl e
                 | Inr si \<Rightarrow>
                     Inr (s\<lparr>min_q_plus := q_plus, min_q := fl_sub r q_plus si,
                            min_i := int i, min_j := int j\<rparr>))
              else Inr s)))"

text \<open>Lines 64 to 70: the body of \<open>for i in range(n)\<close>.\<close>

definition outer_body :: "rounding \<Rightarrow> nat \<Rightarrow> floating \<Rightarrow> nat \<Rightarrow> frame \<Rightarrow> fault + frame" where
  "outer_body r n n_2 i s =
     (case sums_at s i of
        Inl e \<Rightarrow> Inl e
      | Inr si \<Rightarrow>
          for_loop [Suc i ..< n] (inner_body r n_2 i)
            (s\<lparr>min_q_plus := fl_add r (min_q s) si\<rparr>))"

subsection \<open>The function\<close>

definition entry_frame :: "uninit \<Rightarrow> floating list list \<Rightarrow> floating list \<Rightarrow> frame" where
  "entry_frame u d sv =
     \<lparr>dm = d, sums_v = sv, min_i = u_min_i u, min_j = u_min_j u,
      min_q = Infinity, min_q_plus = u_min_q_plus u\<rparr>"

text \<open>
  Lines 50 to 70 on the buffers \<open>d\<close> and \<open>sv\<close>.  \<open>n - 2.0\<close> is computed in \<open>double\<close>, where
  it is exact for every \<open>n\<close> a buffer can have, and converted to the element type.
\<close>

definition nj_minq_cy_body ::
  "rounding \<Rightarrow> uninit \<Rightarrow> floating list list \<Rightarrow> floating list \<Rightarrow> fault + frame" where
  "nj_minq_cy_body r u d sv =
     (let n = length d; n_2 = r (real n - 2)
      in for_loop [0 ..< n] (outer_body r n n_2) (entry_frame u d sv))"

text \<open>
  The call: both parameters are typed by the one fused type \<open>floating\<close>, so the
  generated wrapper accepts them only at one and the same element type and raises
  otherwise, before the body runs.
\<close>

definition run_with :: "rounding \<Rightarrow> uninit \<Rightarrow> view2d \<Rightarrow> view1d \<Rightarrow> fault + frame" where
  "run_with r u dv sv =
     (if itemtype2 dv \<noteq> itemtype1 sv then Inl Dtype_mismatch
      else nj_minq_cy_body r u (rows dv) (elems sv))"

text \<open>Line 72: \<open>return min_i, min_j\<close>.\<close>

definition returned :: "fault + frame \<Rightarrow> fault + int \<times> int" where
  "returned x = (case x of Inl e \<Rightarrow> Inl e | Inr s \<Rightarrow> Inr (min_i s, min_j s))"

definition nj_minq_cy_run :: "uninit \<Rightarrow> view2d \<Rightarrow> view1d \<Rightarrow> fault + frame" where
  "nj_minq_cy_run u dv sv = run_with (round_to (itemtype2 dv)) u dv sv"

definition nj_minq_cy :: "uninit \<Rightarrow> view2d \<Rightarrow> view1d \<Rightarrow> fault + int \<times> int" where
  "nj_minq_cy u dv sv = returned (nj_minq_cy_run u dv sv)"

definition nj_minq_cy_exact :: "uninit \<Rightarrow> view2d \<Rightarrow> view1d \<Rightarrow> fault + int \<times> int" where
  "nj_minq_cy_exact u dv sv = returned (run_with Fin u dv sv)"

subsection \<open>The Q-matrix of the docstring and the precondition of the search\<close>

fun val :: "floating \<Rightarrow> real" where
  "val (Fin a) = a"
| "val x = 0"

fun is_finite :: "floating \<Rightarrow> bool" where
  "is_finite (Fin a) = True"
| "is_finite x = False"

text \<open>
  \<open>Q(i, j) = (n - 2) d(i, j) - \<Sum> d(i) - \<Sum> d(j)\<close>, with the sums taken from \<open>sums\<close>, as a
  real number.
\<close>

definition Q :: "floating list list \<Rightarrow> floating list \<Rightarrow> nat \<Rightarrow> nat \<Rightarrow> real" where
  "Q d sv i j = (real (length d) - 2) * val (d ! i ! j) - val (sv ! i) - val (sv ! j)"

definition square :: "nat \<Rightarrow> floating list list \<Rightarrow> bool" where
  "square n d \<longleftrightarrow> length d = n \<and> (\<forall>r \<in> set d. length r = n)"

definition symmetric :: "floating list list \<Rightarrow> bool" where
  "symmetric d \<longleftrightarrow>
     (\<forall>i \<in> {0 ..< length d}. \<forall>j \<in> {0 ..< length d}. d ! i ! j = d ! j ! i)"

definition zero_diagonal :: "floating list list \<Rightarrow> bool" where
  "zero_diagonal d \<longleftrightarrow> (\<forall>i \<in> {0 ..< length d}. d ! i ! i = Fin 0)"

definition row_sums :: "floating list list \<Rightarrow> floating list \<Rightarrow> bool" where
  "row_sums d sv \<longleftrightarrow>
     length sv = length d \<and>
     (\<forall>k \<in> {0 ..< length d}. sv ! k = Fin (sum_list (map val (d ! k))))"

text \<open>A finite value of the element type \<open>w\<close>: a real that rounding to \<open>w\<close> leaves as it is.\<close>

fun float_value :: "ctype \<Rightarrow> floating \<Rightarrow> bool" where
  "float_value w (Fin a) = (round_to w a = Fin a)"
| "float_value w x = False"

definition finite_entries :: "view2d \<Rightarrow> view1d \<Rightarrow> bool" where
  "finite_entries dv sv \<longleftrightarrow>
     (\<forall>row \<in> set (rows dv). \<forall>x \<in> set row. float_value (itemtype2 dv) x) \<and>
     (\<forall>x \<in> set (elems sv). float_value (itemtype1 sv) x)"

subsection \<open>Conditions on an input\<close>

text \<open>
  \<open>in_bounds\<close>: every index the two loops use is below \<open>n\<close>, so the reads stay inside
  the buffers when \<open>sums\<close> has at least \<open>n\<close> entries and each of the \<open>n\<close> rows of \<open>dm\<close>
  at least \<open>n\<close>.  \<open>all_finite\<close>: no entry is NaN or an infinity.

  \<open>exact_on\<close>: no operation of the scan rounds.  For a pair \<open>i < j\<close> these are the product
  \<open>dm[i, j] * n_2\<close>, the difference \<open>q_plus\<close> (line 66), \<open>min_q = q_plus - sums[i]\<close>
  (line 69) and \<open>min_q + sums[k]\<close> for a later row \<open>k\<close> (line 64).

  \<open>candidate_below\<close>: some pair \<open>i < j\<close> has its key \<open>q_plus\<close> (line 66) below the
  threshold \<open>INFINITY + sums[i]\<close> that line 64 computes while \<open>min_q\<close> is still
  \<open>INFINITY\<close>.
\<close>

definition in_bounds :: "floating list list \<Rightarrow> floating list \<Rightarrow> bool" where
  "in_bounds d sv \<longleftrightarrow>
     length d \<le> length sv \<and> (\<forall>i \<in> {0 ..< length d}. length d \<le> length (d ! i))"

definition all_finite :: "view2d \<Rightarrow> view1d \<Rightarrow> bool" where
  "all_finite dv sv \<longleftrightarrow>
     (\<forall>row \<in> set (rows dv). \<forall>x \<in> set row. is_finite x) \<and> (\<forall>x \<in> set (elems sv). is_finite x)"

definition exact_at :: "rounding \<Rightarrow> floating list list \<Rightarrow> floating list \<Rightarrow> nat \<Rightarrow> nat \<Rightarrow> bool" where
  "exact_at r d sv i j \<longleftrightarrow>
     (let p = val (d ! i ! j) * (real (length d) - 2);
          q = p - val (sv ! j);
          c = q - val (sv ! i)
      in r p = Fin p \<and> r q = Fin q \<and> r c = Fin c \<and>
         (\<forall>k \<in> {0 ..< length d}. r (c + val (sv ! k)) = Fin (c + val (sv ! k))))"

definition exact_on :: "rounding \<Rightarrow> floating list list \<Rightarrow> floating list \<Rightarrow> bool" where
  "exact_on r d sv \<longleftrightarrow>
     r (real (length d) - 2) = Fin (real (length d) - 2) \<and>
     (\<forall>i \<in> {0 ..< length d}. \<forall>j \<in> {Suc i ..< length d}. exact_at r d sv i j)"

definition q_plus_of ::
  "rounding \<Rightarrow> floating list list \<Rightarrow> floating list \<Rightarrow> nat \<Rightarrow> nat \<Rightarrow> floating" where
  "q_plus_of r d sv i j = fl_sub r (fl_mul r (d ! i ! j) (r (real (length d) - 2))) (sv ! j)"

definition candidate_below :: "rounding \<Rightarrow> floating list list \<Rightarrow> floating list \<Rightarrow> bool" where
  "candidate_below r d sv \<longleftrightarrow>
     (\<exists>i \<in> {0 ..< length d}. \<exists>j \<in> {Suc i ..< length d}.
        fl_less (q_plus_of r d sv i j) (fl_add r Infinity (sv ! i)))"

subsection \<open>Example inputs\<close>

text \<open>
  The three-taxon matrix is the scenario \<open>d(A,B) = 5, d(A,C) = 9, d(B,C) = 10\<close> with its
  row sums; \<open>ex_dm3_lower\<close> has the same strict upper triangle and another diagonal and
  lower triangle.  In the four-taxon matrix \<open>ex_dm4\<close> the pairs \<open>(0, 2)\<close> and \<open>(1, 3)\<close>
  are at distance 2 and the others at 4, so these two pairs tie for the minimum of \<open>Q\<close>.
  \<open>ex_dm4r\<close> and \<open>ex_dm3r\<close> are \<open>float\<close> matrices with exact row sums on which the scan
  rounds; on \<open>ex_dm3o\<close> every key overflows.  \<open>ex_u\<close> and \<open>ex_u'\<close> are two contents of the
  unassigned locals.
\<close>

abbreviation ex_u :: uninit where
  "ex_u \<equiv> \<lparr>u_min_i = 7, u_min_j = 9, u_min_q_plus = NaN\<rparr>"

abbreviation ex_u' :: uninit where
  "ex_u' \<equiv> \<lparr>u_min_i = 0, u_min_j = 0, u_min_q_plus = Fin 0\<rparr>"

abbreviation ex_dm3 :: view2d where
  "ex_dm3 \<equiv> \<lparr>itemtype2 = C_double, rows =
     [[Fin 0, Fin 5, Fin 9], [Fin 5, Fin 0, Fin 10], [Fin 9, Fin 10, Fin 0]]\<rparr>"

abbreviation ex_dm3_lower :: view2d where
  "ex_dm3_lower \<equiv> \<lparr>itemtype2 = C_double, rows =
     [[Fin 1, Fin 5, Fin 9], [NaN, Fin 3, Fin 10], [Fin 0, Infinity, Fin (- 4)]]\<rparr>"

abbreviation ex_sums3 :: view1d where
  "ex_sums3 \<equiv> \<lparr>itemtype1 = C_double, elems = [Fin 14, Fin 15, Fin 19]\<rparr>"



abbreviation ex_dm2 :: view2d where
  "ex_dm2 \<equiv> \<lparr>itemtype2 = C_float, rows = [[Fin 0, Fin 4], [Fin 4, Fin 0]]\<rparr>"

abbreviation ex_sums2 :: view1d where
  "ex_sums2 \<equiv> \<lparr>itemtype1 = C_float, elems = [Fin 4, Fin 4]\<rparr>"

abbreviation ex_sums2_long :: view1d where
  "ex_sums2_long \<equiv> \<lparr>itemtype1 = C_float, elems = [Fin 4, Fin 4, Fin 100]\<rparr>"

abbreviation ex_dm1 :: view2d where
  "ex_dm1 \<equiv> \<lparr>itemtype2 = C_double, rows = [[Fin 0]]\<rparr>"

abbreviation ex_sums1 :: view1d where
  "ex_sums1 \<equiv> \<lparr>itemtype1 = C_double, elems = [Fin 0]\<rparr>"





abbreviation ex_dm3o :: view2d where
  "ex_dm3o \<equiv> \<lparr>itemtype2 = C_float, rows =
     [[Fin 0, Fin (2 ^ 127), Fin (2 ^ 127)],
      [Fin (2 ^ 127), Fin 0, Fin (2 ^ 127)],
      [Fin (2 ^ 127), Fin (2 ^ 127), Fin 0]]\<rparr>"

abbreviation ex_dm3o_lower :: view2d where
  "ex_dm3o_lower \<equiv> \<lparr>itemtype2 = C_float, rows =
     [[Fin 1, Fin (2 ^ 127), Fin (2 ^ 127)],
      [Fin 0, Fin 1, Fin (2 ^ 127)],
      [Fin 0, Fin 0, Fin 1]]\<rparr>"

abbreviation ex_sums3o :: view1d where
  "ex_sums3o \<equiv> \<lparr>itemtype1 = C_float, elems =
     [Fin (- (2 ^ 127)), Fin (- (2 ^ 127)), Fin (- (2 ^ 127))]\<rparr>"

subsection \<open>The scan without the frame\<close>

text \<open>
  The definitions of this subsection are not in the source; they serve the proofs.
  \<open>a_run\<close> is the two loops on the three locals that matter, with \<open>None\<close> for a pair
  never assigned and no reads that can fail; \<open>matches\<close> relates it to the frame.
  \<open>finite_reads\<close>: the entries the loops read are finite.
  \<open>pairs n\<close> lists the index pairs in the order the loops visit them, \<open>scan\<close> keeps the
  first element of a list whose key is strictly below every key before it, \<open>q_code\<close> is
  the real number the code stores in \<open>min_q\<close> for a pair when nothing rounds, and
  \<open>tracks\<close> relates \<open>a_run\<close> to \<open>scan\<close> then.
\<close>

type_synonym best = "(nat \<times> nat) option \<times> floating \<times> floating"

definition a_step ::
  "rounding \<Rightarrow> floating list list \<Rightarrow> floating list \<Rightarrow> nat \<Rightarrow> nat \<Rightarrow> best \<Rightarrow> best" where
  "a_step r d sv i j st =
     (if fl_less (q_plus_of r d sv i j) (snd (snd st))
      then (Some (i, j), fl_sub r (q_plus_of r d sv i j) (sv ! i), q_plus_of r d sv i j)
      else st)"

definition a_row ::
  "rounding \<Rightarrow> floating list list \<Rightarrow> floating list \<Rightarrow> nat \<Rightarrow> best \<Rightarrow> best" where
  "a_row r d sv i st =
     fold (a_step r d sv i) [Suc i ..< length d]
       (fst st, fst (snd st), fl_add r (fst (snd st)) (sv ! i))"

definition a_run :: "rounding \<Rightarrow> floating list list \<Rightarrow> floating list \<Rightarrow> best" where
  "a_run r d sv = fold (a_row r d sv) [0 ..< length d] (None, Infinity, Infinity)"

fun decode :: "uninit \<Rightarrow> (nat \<times> nat) option \<Rightarrow> int \<times> int" where
  "decode u None = (u_min_i u, u_min_j u)"
| "decode u (Some p) = (int (fst p), int (snd p))"

definition matches :: "uninit \<Rightarrow> floating list list \<Rightarrow> floating list \<Rightarrow> best \<Rightarrow> frame \<Rightarrow> bool" where
  "matches u d sv st s \<longleftrightarrow>
     dm s = d \<and> sums_v s = sv \<and> (min_i s, min_j s) = decode u (fst st) \<and>
     min_q s = fst (snd st)"

definition finite_reads :: "floating list list \<Rightarrow> floating list \<Rightarrow> bool" where
  "finite_reads d sv \<longleftrightarrow>
     (\<forall>i \<in> {0 ..< length d}. is_finite (sv ! i) \<and>
        (\<forall>j \<in> {Suc i ..< length d}. is_finite (d ! i ! j)))"

fun scan :: "('a \<Rightarrow> real) \<Rightarrow> 'a list \<Rightarrow> 'a option \<Rightarrow> 'a option" where
  "scan f [] b = b"
| "scan f (x # xs) b =
     scan f xs (case b of None \<Rightarrow> Some x | Some y \<Rightarrow> if f x < f y then Some x else Some y)"

definition pairs :: "nat \<Rightarrow> (nat \<times> nat) list" where
  "pairs n = concat (map (\<lambda>i. map (Pair i) [Suc i ..< n]) [0 ..< n])"

definition q_code :: "floating list list \<Rightarrow> floating list \<Rightarrow> nat \<times> nat \<Rightarrow> real" where
  "q_code d sv p =
     val (d ! fst p ! snd p) * (real (length d) - 2) - val (sv ! snd p) - val (sv ! fst p)"

definition tracks :: "rounding \<Rightarrow> floating list list \<Rightarrow> floating list \<Rightarrow> (nat \<times> nat) option \<Rightarrow> best \<Rightarrow> bool" where
  "tracks r d sv B st \<longleftrightarrow>
     fst st = B \<and>
     (case B of
        None \<Rightarrow> fst (snd st) = Infinity
      | Some p \<Rightarrow> fst (snd st) = Fin (q_code d sv p) \<and>
          (\<forall>k \<in> {0 ..< length d}.
             r (q_code d sv p + val (sv ! k)) = Fin (q_code d sv p + val (sv ! k))))"

definition threshold :: "floating list list \<Rightarrow> floating list \<Rightarrow> nat \<Rightarrow> (nat \<times> nat) option \<Rightarrow> floating" where
  "threshold d sv i B = (case B of None \<Rightarrow> Infinity | Some p \<Rightarrow> Fin (q_code d sv p + val (sv ! i)))"

definition before :: "nat \<times> nat \<Rightarrow> nat \<times> nat \<Rightarrow> bool" where
  "before p q \<longleftrightarrow> fst p < fst q \<or> (fst p = fst q \<and> snd p < snd q)"

definition first_min_of :: "('a \<Rightarrow> real) \<Rightarrow> 'a list \<Rightarrow> 'a \<Rightarrow> bool" where
  "first_min_of f xs r \<longleftrightarrow>
     (\<exists>ys zs. xs = ys @ r # zs \<and> (\<forall>a \<in> set ys. f r < f a) \<and> (\<forall>z \<in> set zs. f r \<le> f z))"

section \<open>Evaluation on concrete inputs\<close>

lemmas round_eval = round_to_def nearest_def quantum_def expo_def rne_def pow2_def max_finite_def
  emin_def compute_floorlog Let_def

lemmas run_eval = nj_minq_cy_def nj_minq_cy_run_def nj_minq_cy_exact_def run_with_def
  returned_def nj_minq_cy_body_def entry_frame_def outer_body_def inner_body_def dm_at_def
  sums_at_def fl_sub_def inf_times_def upt_rec

lemmas pred_eval = square_def symmetric_def zero_diagonal_def row_sums_def finite_entries_def
  all_finite_def in_bounds_def exact_on_def exact_at_def candidate_below_def q_plus_of_def Q_def
  fl_sub_def inf_times_def atLeastLessThan_upt upt_rec

section \<open>Rounding\<close>


lemma pow2_pos: "0 < pow2 e"
  by (simp add: pow2_def)




lemma precision_pos: "0 < precision w"
  by (cases w) simp_all


lemma max_finite_pos: "0 < max_finite w"
proof -
  have "(1::real) < 2 ^ precision w" using precision_pos [of w] by simp
  then show ?thesis by (simp add: max_finite_def pow2_pos)
qed




lemma nearest_minus: "nearest w (- x) = - nearest w x"
  by (simp add: nearest_def)



lemma round_to_zero: "round_to w 0 = Fin 0"
  using max_finite_pos [of w] by (simp add: round_to_def nearest_def)

lemma round_to_minus: "round_to w (- x) = fl_neg (round_to w x)"
  using max_finite_pos [of w] by (auto simp: round_to_def nearest_minus Let_def)


lemma round_to_Fin_D: "round_to w x = Fin y \<Longrightarrow> \<bar>y\<bar> \<le> max_finite w"
  by (auto simp: round_to_def Let_def split: if_splits)



section \<open>The loops and the scan without the frame\<close>

lemma inner_body_a_step:
  assumes "matches u d sv st s" and "min_q_plus s = snd (snd st)"
    and "i < length d" and "j < length (d ! i)" and "i < length sv" and "j < length sv"
  shows "\<exists>s'. inner_body r (r (real (length d) - 2)) i j s = Inr s' \<and>
           matches u d sv (a_step r d sv i j st) s' \<and>
           min_q_plus s' = snd (snd (a_step r d sv i j st))"
  using assms
  by (auto simp: matches_def inner_body_def dm_at_def sums_at_def a_step_def q_plus_of_def Let_def)

lemma inner_loop_fold:
  assumes "matches u d sv st s" and "min_q_plus s = snd (snd st)"
    and "i < length d" and "i < length sv"
    and "\<forall>j \<in> set js. j < length (d ! i) \<and> j < length sv"
  shows "\<exists>s'. for_loop js (inner_body r (r (real (length d) - 2)) i) s = Inr s' \<and>
           matches u d sv (fold (a_step r d sv i) js st) s' \<and>
           min_q_plus s' = snd (snd (fold (a_step r d sv i) js st))"
  using assms
proof (induction js arbitrary: st s)
  case Nil
  then show ?case by simp
next
  case (Cons j js)
  from Cons.prems obtain s1 where
    s1: "inner_body r (r (real (length d) - 2)) i j s = Inr s1"
        "matches u d sv (a_step r d sv i j st) s1"
        "min_q_plus s1 = snd (snd (a_step r d sv i j st))"
    using inner_body_a_step [of u d sv st s i j r] by auto
  from Cons.IH [OF s1(2) s1(3)] Cons.prems obtain s' where
    "for_loop js (inner_body r (r (real (length d) - 2)) i) s1 = Inr s'"
    "matches u d sv (fold (a_step r d sv i) js (a_step r d sv i j st)) s'"
    "min_q_plus s' = snd (snd (fold (a_step r d sv i) js (a_step r d sv i j st)))"
    by auto
  with s1(1) show ?case by simp
qed

lemma outer_body_a_row:
  assumes "matches u d sv st s" and "i < length d" and "i < length sv"
    and "\<forall>j \<in> {Suc i ..< length d}. j < length (d ! i) \<and> j < length sv"
  shows "\<exists>s'. outer_body r (length d) (r (real (length d) - 2)) i s = Inr s' \<and>
           matches u d sv (a_row r d sv i st) s'"
proof -
  let ?s = "s\<lparr>min_q_plus := fl_add r (min_q s) (sv ! i)\<rparr>"
  let ?st = "(fst st, fst (snd st), fl_add r (fst (snd st)) (sv ! i))"
  have h: "matches u d sv ?st ?s" using assms(1) by (simp add: matches_def)
  have p: "min_q_plus ?s = snd (snd ?st)" using assms(1) by (simp add: matches_def)
  have js: "\<forall>j \<in> set [Suc i ..< length d]. j < length (d ! i) \<and> j < length sv"
    using assms(4) by simp
  from inner_loop_fold [OF h p assms(2) assms(3) js, of r] obtain s' where
    "for_loop [Suc i ..< length d] (inner_body r (r (real (length d) - 2)) i) ?s = Inr s'"
    "matches u d sv (fold (a_step r d sv i) [Suc i ..< length d] ?st) s'"
    by blast
  moreover have "sums_at s i = Inr (sv ! i)"
    using assms(1,3) by (simp add: sums_at_def matches_def)
  ultimately show ?thesis by (simp add: outer_body_def a_row_def)
qed

lemma outer_loop_fold:
  assumes "matches u d sv st s"
    and "\<forall>i \<in> set is. i < length d \<and> i < length sv \<and>
           (\<forall>j \<in> {Suc i ..< length d}. j < length (d ! i) \<and> j < length sv)"
  shows "\<exists>s'. for_loop is (outer_body r (length d) (r (real (length d) - 2))) s = Inr s' \<and>
           matches u d sv (fold (a_row r d sv) is st) s'"
  using assms
proof (induction "is" arbitrary: st s)
  case Nil
  then show ?case by simp
next
  case (Cons i "is")
  from Cons.prems obtain s1 where
    s1: "outer_body r (length d) (r (real (length d) - 2)) i s = Inr s1"
        "matches u d sv (a_row r d sv i st) s1"
    using outer_body_a_row [of u d sv st s i r] by auto
  from Cons.IH [OF s1(2)] Cons.prems obtain s' where
    "for_loop is (outer_body r (length d) (r (real (length d) - 2))) s1 = Inr s'"
    "matches u d sv (fold (a_row r d sv) is (a_row r d sv i st)) s'"
    by auto
  with s1(1) show ?case by simp
qed

lemma body_a_run:
  assumes "in_bounds d sv"
  shows "\<exists>s'. nj_minq_cy_body r u d sv = Inr s' \<and> matches u d sv (a_run r d sv) s'"
proof -
  have h: "matches u d sv (None, Infinity, Infinity) (entry_frame u d sv)"
    by (simp add: matches_def entry_frame_def)
  have b: "\<forall>i \<in> set [0 ..< length d]. i < length d \<and> i < length sv \<and>
           (\<forall>j \<in> {Suc i ..< length d}. j < length (d ! i) \<and> j < length sv)"
    using assms by (auto simp: in_bounds_def)
  from outer_loop_fold [OF h b, of r] show ?thesis
    by (simp add: nj_minq_cy_body_def a_run_def Let_def)
qed

lemma run_with_a_run:
  assumes "itemtype2 dv = itemtype1 sv" and "in_bounds (rows dv) (elems sv)"
  shows "\<exists>s'. run_with r u dv sv = Inr s' \<and> matches u (rows dv) (elems sv) (a_run r (rows dv) (elems sv)) s'"
  using assms body_a_run [of "rows dv" "elems sv" r u] by (simp add: run_with_def)

lemma returned_a_run:
  assumes "itemtype2 dv = itemtype1 sv" and "in_bounds (rows dv) (elems sv)"
  shows "returned (run_with r u dv sv) = Inr (decode u (fst (a_run r (rows dv) (elems sv))))"
proof -
  from run_with_a_run [OF assms, of r u] obtain s' where
    "run_with r u dv sv = Inr s'" "matches u (rows dv) (elems sv) (a_run r (rows dv) (elems sv)) s'"
    by blast
  then show ?thesis by (simp add: returned_def matches_def)
qed

lemma returned_mismatch:
  "itemtype2 dv \<noteq> itemtype1 sv \<Longrightarrow> returned (run_with r u dv sv) = Inl Dtype_mismatch"
  by (simp add: returned_def run_with_def)

section \<open>What the scan assigns\<close>

lemma a_step_fst:
  "fst (a_step r d sv i j st) = Some p \<Longrightarrow> fst st = Some p \<or> p = (i, j)"
  by (auto simp: a_step_def split: if_splits)

lemma fold_a_step_fst:
  "fst (fold (a_step r d sv i) js st) = Some p \<Longrightarrow> fst st = Some p \<or> (\<exists>j \<in> set js. p = (i, j))"
proof (induction js arbitrary: st)
  case Nil
  then show ?case by simp
next
  case (Cons j js)
  from Cons.prems have "fst (fold (a_step r d sv i) js (a_step r d sv i j st)) = Some p" by simp
  from Cons.IH [OF this] show ?case using a_step_fst [of r d sv i j st p] by auto
qed

lemma a_row_fst:
  assumes "fst (a_row r d sv i st) = Some p"
  shows "fst st = Some p \<or> (\<exists>j \<in> {Suc i ..< length d}. p = (i, j))"
  using fold_a_step_fst [of r d sv i "[Suc i ..< length d]" _ p] assms
  by (fastforce simp: a_row_def)

lemma fold_a_row_fst:
  "fst (fold (a_row r d sv) is st) = Some p \<Longrightarrow>
     fst st = Some p \<or> (\<exists>i \<in> set is. \<exists>j \<in> {Suc i ..< length d}. p = (i, j))"
proof (induction "is" arbitrary: st)
  case Nil
  then show ?case by simp
next
  case (Cons i "is")
  from Cons.prems have "fst (fold (a_row r d sv) is (a_row r d sv i st)) = Some p" by simp
  from Cons.IH [OF this] show ?case using a_row_fst [of r d sv i st p] by auto
qed

lemma a_run_range:
  assumes "fst (a_run r d sv) = Some (i, j)"
  shows "i < j \<and> j < length d"
  using fold_a_row_fst [of r d sv "[0 ..< length d]" "(None, Infinity, Infinity)" "(i, j)"] assms
  by (auto simp: a_run_def)

lemma a_run_small: "length d < 2 \<Longrightarrow> fst (a_run r d sv) = None"
proof (rule ccontr)
  assume n: "length d < 2" and "fst (a_run r d sv) \<noteq> None"
  then obtain i j where "fst (a_run r d sv) = Some (i, j)" by auto
  then have "i < j \<and> j < length d" by (rule a_run_range)
  then show False using n by simp
qed

lemma q_plus_of_cong:
  "length d1 = length d2 \<Longrightarrow> d1 ! i ! j = d2 ! i ! j \<Longrightarrow> q_plus_of r d1 sv i j = q_plus_of r d2 sv i j"
  by (simp add: q_plus_of_def)

lemma fold_a_step_cong:
  assumes "length d1 = length d2" and "\<forall>j \<in> set js. d1 ! i ! j = d2 ! i ! j"
  shows "fold (a_step r d1 sv i) js st = fold (a_step r d2 sv i) js st"
  using assms(2)
proof (induction js arbitrary: st)
  case Nil
  show ?case by simp
next
  case (Cons j js)
  have "a_step r d1 sv i j st = a_step r d2 sv i j st"
    using Cons.prems assms(1) by (simp add: a_step_def q_plus_of_cong [of d1 d2])
  then show ?case using Cons by simp
qed

lemma a_row_cong:
  assumes "length d1 = length d2" and "\<forall>j \<in> {Suc i ..< length d1}. d1 ! i ! j = d2 ! i ! j"
  shows "a_row r d1 sv i st = a_row r d2 sv i st"
  using fold_a_step_cong [OF assms(1), of "[Suc i ..< length d1]" i r sv] assms
  by (simp add: a_row_def)

lemma fold_a_row_cong:
  assumes "length d1 = length d2"
    and "\<forall>i \<in> set is. \<forall>j \<in> {Suc i ..< length d1}. d1 ! i ! j = d2 ! i ! j"
  shows "fold (a_row r d1 sv) is st = fold (a_row r d2 sv) is st"
  using assms(2)
proof (induction "is" arbitrary: st)
  case Nil
  show ?case by simp
next
  case (Cons i "is")
  have "a_row r d1 sv i st = a_row r d2 sv i st"
    using Cons.prems by (intro a_row_cong [OF assms(1)]) simp
  then show ?case using Cons by simp
qed

lemma a_run_cong:
  assumes "length d1 = length d2"
    and "\<forall>i j. i < j \<and> j < length d1 \<longrightarrow> d1 ! i ! j = d2 ! i ! j"
  shows "a_run r d1 sv = a_run r d2 sv"
proof -
  have "\<forall>i \<in> set [0 ..< length d1]. \<forall>j \<in> {Suc i ..< length d1}. d1 ! i ! j = d2 ! i ! j"
    using assms(2) by auto
  from fold_a_row_cong [OF assms(1) this, of r sv] assms(1) show ?thesis
    by (simp add: a_run_def)
qed

text \<open>Once a pair is assigned, one stays assigned.\<close>

lemma a_step_keeps: "fst st \<noteq> None \<Longrightarrow> fst (a_step r d sv i j st) \<noteq> None"
  by (simp add: a_step_def)

lemma fold_a_step_keeps: "fst st \<noteq> None \<Longrightarrow> fst (fold (a_step r d sv i) js st) \<noteq> None"
proof (induction js arbitrary: st)
  case Nil
  then show ?case by simp
next
  case (Cons j js)
  from Cons.prems have "fst (a_step r d sv i j st) \<noteq> None" by (rule a_step_keeps)
  from Cons.IH [OF this] show ?case by simp
qed

lemma a_row_keeps: "fst st \<noteq> None \<Longrightarrow> fst (a_row r d sv i st) \<noteq> None"
  by (simp add: a_row_def fold_a_step_keeps)

lemma fold_a_row_keeps: "fst st \<noteq> None \<Longrightarrow> fst (fold (a_row r d sv) is st) \<noteq> None"
proof (induction "is" arbitrary: st)
  case Nil
  then show ?case by simp
next
  case (Cons i "is")
  from Cons.prems have "fst (a_row r d sv i st) \<noteq> None" by (rule a_row_keeps)
  from Cons.IH [OF this] show ?case by simp
qed

text \<open>While none is assigned, the threshold of row \<open>i\<close> is \<open>INFINITY + sums[i]\<close>.\<close>

lemma fold_a_step_assigns:
  assumes "st = (None, Infinity, fl_add r Infinity (sv ! i))"
    and "\<exists>j \<in> set js. fl_less (q_plus_of r d sv i j) (fl_add r Infinity (sv ! i))"
  shows "fst (fold (a_step r d sv i) js st) \<noteq> None"
  using assms(2)
proof (induction js)
  case Nil
  then show ?case by simp
next
  case (Cons j js)
  show ?case
  proof (cases "fl_less (q_plus_of r d sv i j) (fl_add r Infinity (sv ! i))")
    case True
    then have "fst (a_step r d sv i j st) \<noteq> None" using assms(1) by (simp add: a_step_def)
    then show ?thesis by (simp add: fold_a_step_keeps)
  next
    case False
    then have "a_step r d sv i j st = st" using assms(1) by (simp add: a_step_def)
    moreover have "\<exists>j \<in> set js. fl_less (q_plus_of r d sv i j) (fl_add r Infinity (sv ! i))"
      using Cons.prems False by auto
    ultimately show ?thesis using Cons.IH by simp
  qed
qed

lemma fold_a_step_idle:
  assumes "st = (None, Infinity, fl_add r Infinity (sv ! i))"
    and "\<not> (\<exists>j \<in> set js. fl_less (q_plus_of r d sv i j) (fl_add r Infinity (sv ! i)))"
  shows "fold (a_step r d sv i) js st = st"
  using assms(2)
proof (induction js)
  case Nil
  show ?case by simp
next
  case (Cons j js)
  then have "a_step r d sv i j st = st" using assms(1) by (simp add: a_step_def)
  then show ?case using Cons by simp
qed

lemma fold_a_row_assigns:
  assumes "fst st = None" and "fst (snd st) = Infinity"
    and "\<exists>i \<in> set is. \<exists>j \<in> {Suc i ..< length d}.
           fl_less (q_plus_of r d sv i j) (fl_add r Infinity (sv ! i))"
  shows "fst (fold (a_row r d sv) is st) \<noteq> None"
  using assms
proof (induction "is" arbitrary: st)
  case Nil
  then show ?case by simp
next
  case (Cons i "is")
  let ?st = "(None, Infinity, fl_add r Infinity (sv ! i))"
  have row: "a_row r d sv i st = fold (a_step r d sv i) [Suc i ..< length d] ?st"
    using Cons.prems(1,2) by (simp add: a_row_def)
  show ?case
  proof (cases "\<exists>j \<in> set [Suc i ..< length d].
      fl_less (q_plus_of r d sv i j) (fl_add r Infinity (sv ! i))")
    case True
    from fold_a_step_assigns [OF refl True] have "fst (a_row r d sv i st) \<noteq> None"
      using row by simp
    then show ?thesis by (simp add: fold_a_row_keeps)
  next
    case False
    from fold_a_step_idle [OF refl False] have same: "a_row r d sv i st = ?st" using row by simp
    have rest: "\<exists>i \<in> set is. \<exists>j \<in> {Suc i ..< length d}.
           fl_less (q_plus_of r d sv i j) (fl_add r Infinity (sv ! i))"
      using Cons.prems(3) False by auto
    have "fst (fold (a_row r d sv) is ?st) \<noteq> None"
      by (rule Cons.IH) (use rest in simp_all)
    then show ?thesis using same by simp
  qed
qed

lemma a_run_assigns:
  assumes "candidate_below r d sv"
  shows "fst (a_run r d sv) \<noteq> None"
  unfolding a_run_def
  by (rule fold_a_row_assigns) (use assms in \<open>auto simp: candidate_below_def\<close>)

section \<open>The scan when nothing rounds\<close>

lemma is_finite_D: "is_finite x \<Longrightarrow> \<exists>a. x = Fin a"
  by (cases x) simp_all

lemma scan_append: "scan f (xs @ ys) b = scan f ys (scan f xs b)"
  by (induction xs arbitrary: b) simp_all

lemma a_step_tracks:
  assumes t: "tracks r d sv B st" and th: "snd (snd st) = threshold d sv i B"
    and ex: "exact_on r d sv" and fr: "finite_reads d sv"
    and i: "i < length d" and j: "Suc i \<le> j" "j < length d"
  shows "tracks r d sv (scan (q_code d sv) [(i, j)] B) (a_step r d sv i j st) \<and>
         snd (snd (a_step r d sv i j st)) = threshold d sv i (scan (q_code d sv) [(i, j)] B)"
proof -
  let ?m = "real (length d) - 2"
  from fr i j obtain dv sj si where v: "d ! i ! j = Fin dv" "sv ! j = Fin sj" "sv ! i = Fin si"
    unfolding finite_reads_def
    by (metis is_finite_D atLeastLessThan_iff le0 Suc_le_eq less_imp_le_nat less_trans)
  have m: "r ?m = Fin ?m" using ex by (simp add: exact_on_def)
  have "exact_at r d sv i j" using ex i j by (simp add: exact_on_def)
  then have e: "r (dv * ?m) = Fin (dv * ?m)" "r (dv * ?m - sj) = Fin (dv * ?m - sj)"
    "r (dv * ?m - sj - si) = Fin (dv * ?m - sj - si)"
    "\<forall>k \<in> {0 ..< length d}. r (dv * ?m - sj - si + val (sv ! k)) = Fin (dv * ?m - sj - si + val (sv ! k))"
    unfolding exact_at_def Let_def using v by simp_all
  have qp: "q_plus_of r d sv i j = Fin (dv * ?m - sj)"
    using v m e by (simp add: q_plus_of_def fl_sub_def)
  have qc: "q_code d sv (i, j) = dv * ?m - sj - si" using v by (simp add: q_code_def)
  have upd: "fl_sub r (Fin (dv * ?m - sj)) (sv ! i) = Fin (q_code d sv (i, j))"
    using v e qc by (simp add: fl_sub_def)
  show ?thesis
  proof (cases B)
    case None
    then show ?thesis using t th qp upd qc e v
      by (simp add: tracks_def threshold_def a_step_def)
  next
    case (Some p)
    then show ?thesis using t th qp upd qc e v
      by (auto simp: tracks_def threshold_def a_step_def)
  qed
qed

lemma fold_a_step_tracks:
  assumes "tracks r d sv B st" and "snd (snd st) = threshold d sv i B"
    and ex: "exact_on r d sv" and fr: "finite_reads d sv"
    and i: "i < length d" and js: "\<forall>j \<in> set js. Suc i \<le> j \<and> j < length d"
  shows "tracks r d sv (scan (q_code d sv) (map (Pair i) js) B) (fold (a_step r d sv i) js st)"
  using assms(1,2) js
proof (induction js arbitrary: B st)
  case Nil
  then show ?case by simp
next
  case (Cons j js)
  from Cons.prems have j: "Suc i \<le> j" "j < length d" by simp_all
  from a_step_tracks [OF Cons.prems(1,2) ex fr i j]
  have s: "tracks r d sv (scan (q_code d sv) [(i, j)] B) (a_step r d sv i j st)"
    "snd (snd (a_step r d sv i j st)) = threshold d sv i (scan (q_code d sv) [(i, j)] B)"
    by simp_all
  have "tracks r d sv (scan (q_code d sv) (map (Pair i) js) (scan (q_code d sv) [(i, j)] B))
          (fold (a_step r d sv i) js (a_step r d sv i j st))"
    by (rule Cons.IH [OF s]) (use Cons.prems(3) in simp)
  then show ?case by simp
qed

lemma a_row_tracks:
  assumes t: "tracks r d sv B st" and ex: "exact_on r d sv" and fr: "finite_reads d sv"
    and i: "i < length d"
  shows "tracks r d sv (scan (q_code d sv) (map (Pair i) [Suc i ..< length d]) B) (a_row r d sv i st)"
proof -
  let ?st = "(fst st, fst (snd st), fl_add r (fst (snd st)) (sv ! i))"
  from fr i obtain si where si: "sv ! i = Fin si"
    unfolding finite_reads_def by (metis is_finite_D atLeastLessThan_iff le0)
  have t': "tracks r d sv B ?st"
  proof (cases B)
    case None
    then show ?thesis using t by (simp add: tracks_def)
  next
    case (Some p)
    then show ?thesis using t by (simp add: tracks_def)
  qed
  have th: "snd (snd ?st) = threshold d sv i B"
  proof (cases B)
    case None
    then show ?thesis using t si by (simp add: tracks_def threshold_def)
  next
    case (Some p)
    then have "\<forall>k \<in> {0 ..< length d}.
        r (q_code d sv p + val (sv ! k)) = Fin (q_code d sv p + val (sv ! k))"
      using t by (simp add: tracks_def)
    then have "r (q_code d sv p + val (sv ! i)) = Fin (q_code d sv p + val (sv ! i))"
      using i by simp
    then show ?thesis using Some t si by (simp add: tracks_def threshold_def)
  qed
  have js: "\<forall>j \<in> set [Suc i ..< length d]. Suc i \<le> j \<and> j < length d" by simp
  from fold_a_step_tracks [OF t' th ex fr i js] show ?thesis by (simp add: a_row_def)
qed

lemma fold_a_row_tracks:
  assumes "tracks r d sv B st" and ex: "exact_on r d sv" and fr: "finite_reads d sv"
    and "\<forall>i \<in> set is. i < length d"
  shows "tracks r d sv
           (scan (q_code d sv) (concat (map (\<lambda>i. map (Pair i) [Suc i ..< length d]) is)) B)
           (fold (a_row r d sv) is st)"
  using assms(1,4)
proof (induction "is" arbitrary: B st)
  case Nil
  then show ?case by simp
next
  case (Cons i "is")
  from Cons.prems have i: "i < length d" by simp
  have s: "tracks r d sv (scan (q_code d sv) (map (Pair i) [Suc i ..< length d]) B) (a_row r d sv i st)"
    by (rule a_row_tracks [OF Cons.prems(1) ex fr i])
  have "tracks r d sv
          (scan (q_code d sv) (concat (map (\<lambda>i. map (Pair i) [Suc i ..< length d]) is))
             (scan (q_code d sv) (map (Pair i) [Suc i ..< length d]) B))
          (fold (a_row r d sv) is (a_row r d sv i st))"
    by (rule Cons.IH [OF s]) (use Cons.prems(2) in simp)
  then show ?case by (simp add: scan_append)
qed

lemma a_run_scan:
  assumes "exact_on r d sv" and "finite_reads d sv"
  shows "fst (a_run r d sv) = scan (q_code d sv) (pairs (length d)) None"
proof -
  have t: "tracks r d sv None (None, Infinity, Infinity)" by (simp add: tracks_def)
  have "\<forall>i \<in> set [0 ..< length d]. i < length d" by simp
  from fold_a_row_tracks [OF t assms this] show ?thesis
    by (simp add: a_run_def pairs_def tracks_def)
qed

section \<open>First minimum of a list\<close>

lemma mem_pairs: "(a, b) \<in> set (pairs n) \<longleftrightarrow> a < b \<and> b < n"
proof
  assume "(a, b) \<in> set (pairs n)"
  then show "a < b \<and> b < n" by (auto simp: pairs_def)
next
  assume h: "a < b \<and> b < n"
  then show "(a, b) \<in> set (pairs n)"
    by (auto simp: pairs_def intro!: bexI [where x = a])
qed

lemma sorted_row: "sorted_wrt before (map (Pair m) [Suc m ..< n])"
  by (simp add: sorted_wrt_map before_def)

lemma sorted_rows:
  "sorted_wrt before (concat (map (\<lambda>i. map (Pair i) [Suc i ..< n]) [0 ..< m]))"
proof (induction m)
  case 0
  show ?case by simp
next
  case (Suc m)
  have "\<forall>p \<in> set (concat (map (\<lambda>i. map (Pair i) [Suc i ..< n]) [0 ..< m])).
          \<forall>q \<in> set (map (Pair m) [Suc m ..< n]). before p q"
    by (auto simp: before_def)
  then show ?case using Suc sorted_row [of m n]
    by (simp add: sorted_wrt_append)
qed

lemma sorted_pairs: "sorted_wrt before (pairs n)"
  unfolding pairs_def by (rule sorted_rows)

lemma first_min_here:
  assumes "\<forall>a \<in> set xs. f x \<le> f a"
  shows "first_min_of f (x # xs) x"
proof -
  have "x # xs = [] @ x # xs \<and> (\<forall>a \<in> set []. f x < f a) \<and> (\<forall>z \<in> set xs. f x \<le> f z)"
    using assms by simp
  then show ?thesis unfolding first_min_of_def by blast
qed

lemma first_min_later:
  assumes "first_min_of f xs r" and "f r < f x"
  shows "first_min_of f (x # xs) r"
proof -
  from assms(1) obtain ys zs where e: "xs = ys @ r # zs"
    "\<forall>a \<in> set ys. f r < f a" "\<forall>z \<in> set zs. f r \<le> f z"
    unfolding first_min_of_def by blast
  have "x # xs = (x # ys) @ r # zs \<and> (\<forall>a \<in> set (x # ys). f r < f a) \<and>
          (\<forall>z \<in> set zs. f r \<le> f z)"
    using e assms(2) by simp
  then show ?thesis unfolding first_min_of_def by blast
qed

lemma scan_from_Some:
  "\<exists>r. scan f xs (Some y) = Some r \<and>
     ((r = y \<and> (\<forall>x \<in> set xs. f y \<le> f x)) \<or> (f r < f y \<and> first_min_of f xs r))"
proof (induction xs arbitrary: y)
  case Nil
  show ?case by simp
next
  case (Cons x xs)
  show ?case
  proof (cases "f x < f y")
    case True
    from Cons.IH [of x] obtain r where r: "scan f xs (Some x) = Some r"
      and d: "(r = x \<and> (\<forall>a \<in> set xs. f x \<le> f a)) \<or> (f r < f x \<and> first_min_of f xs r)"
      by blast
    have s: "scan f (x # xs) (Some y) = Some r" using r True by simp
    from d have "f r < f y \<and> first_min_of f (x # xs) r"
    proof
      assume "r = x \<and> (\<forall>a \<in> set xs. f x \<le> f a)"
      then show ?thesis using True first_min_here [of xs f x] by simp
    next
      assume "f r < f x \<and> first_min_of f xs r"
      then show ?thesis using True first_min_later [of f xs r x] by simp
    qed
    with s show ?thesis by blast
  next
    case False
    from Cons.IH [of y] obtain r where r: "scan f xs (Some y) = Some r"
      and d: "(r = y \<and> (\<forall>a \<in> set xs. f y \<le> f a)) \<or> (f r < f y \<and> first_min_of f xs r)"
      by blast
    have s: "scan f (x # xs) (Some y) = Some r" using r False by simp
    from d have "(r = y \<and> (\<forall>a \<in> set (x # xs). f y \<le> f a)) \<or>
                 (f r < f y \<and> first_min_of f (x # xs) r)"
    proof
      assume "r = y \<and> (\<forall>a \<in> set xs. f y \<le> f a)"
      then show ?thesis using False by simp
    next
      assume a: "f r < f y \<and> first_min_of f xs r"
      then have "f r < f x" using False by simp
      then show ?thesis using a first_min_later [of f xs r x] by simp
    qed
    with s show ?thesis by blast
  qed
qed

lemma scan_first_min:
  assumes "xs \<noteq> []"
  shows "\<exists>r. scan f xs None = Some r \<and> first_min_of f xs r"
proof -
  from assms obtain x xs' where xs: "xs = x # xs'" by (cases xs) auto
  from scan_from_Some [of f xs' x] obtain r where r: "scan f xs' (Some x) = Some r"
    and d: "(r = x \<and> (\<forall>a \<in> set xs'. f x \<le> f a)) \<or> (f r < f x \<and> first_min_of f xs' r)"
    by blast
  have s: "scan f xs None = Some r" using r xs by simp
  from d have "first_min_of f xs r"
  proof
    assume "r = x \<and> (\<forall>a \<in> set xs'. f x \<le> f a)"
    then show ?thesis using xs first_min_here [of xs' f x] by simp
  next
    assume "f r < f x \<and> first_min_of f xs' r"
    then show ?thesis using xs first_min_later [of f xs' r x] by simp
  qed
  with s show ?thesis by blast
qed

lemma scan_same_order:
  assumes "\<forall>x \<in> set xs \<union> set_option b. \<forall>y \<in> set xs \<union> set_option b. (f x < f y) = (g x < g y)"
  shows "scan f xs b = scan g xs b"
  using assms
proof (induction xs arbitrary: b)
  case Nil
  show ?case by simp
next
  case (Cons x xs)
  show ?case
  proof (cases b)
    case None
    have "scan f xs (Some x) = scan g xs (Some x)"
      by (rule Cons.IH) (use Cons.prems None in simp)
    then show ?thesis using None by simp
  next
    case (Some y)
    have eq: "(f x < f y) = (g x < g y)" using Cons.prems Some by simp
    have a: "scan f xs (Some x) = scan g xs (Some x)"
      by (rule Cons.IH) (use Cons.prems Some in simp)
    have b: "scan f xs (Some y) = scan g xs (Some y)"
      by (rule Cons.IH) (use Cons.prems Some in simp)
    show ?thesis using Some eq a b by simp
  qed
qed

lemma pairs_first_min:
  assumes "2 \<le> n"
  shows "\<exists>i j. scan f (pairs n) None = Some (i, j) \<and> i < j \<and> j < n \<and>
           (\<forall>a b. a < b \<and> b < n \<longrightarrow> f (i, j) \<le> f (a, b)) \<and>
           (\<forall>a b. a < b \<and> b < n \<and> (a < i \<or> (a = i \<and> b < j)) \<longrightarrow> f (i, j) < f (a, b))"
proof -
  have "(0, 1) \<in> set (pairs n)" using assms by (simp add: mem_pairs)
  then have ne: "pairs n \<noteq> []" by auto
  from scan_first_min [OF ne, of f] obtain r where
    r: "scan f (pairs n) None = Some r" and fm: "first_min_of f (pairs n) r"
    by blast
  from fm obtain ys zs where xs: "pairs n = ys @ r # zs"
    and lt: "\<forall>a \<in> set ys. f r < f a" and le: "\<forall>z \<in> set zs. f r \<le> f z"
    unfolding first_min_of_def by blast
  obtain i j where ij: "r = (i, j)" by (cases r)
  have "r \<in> set (pairs n)" using xs by simp
  then have b: "i < j \<and> j < n" using ij by (simp add: mem_pairs)
  have srt: "sorted_wrt before (ys @ r # zs)" using sorted_pairs [of n] xs by simp
  have after: "\<forall>z \<in> set zs. before r z" using srt by (simp add: sorted_wrt_append)
  have m: "f (i, j) \<le> f (a, b)" if "a < b \<and> b < n" for a b
  proof -
    have "(a, b) \<in> set (pairs n)" using that by (simp add: mem_pairs)
    then have "(a, b) \<in> set ys \<or> (a, b) = r \<or> (a, b) \<in> set zs" using xs by auto
    then show ?thesis using lt le ij by auto
  qed
  have s: "f (i, j) < f (a, b)" if ab: "a < b \<and> b < n" and bf: "a < i \<or> (a = i \<and> b < j)" for a b
  proof -
    have "(a, b) \<in> set (pairs n)" using ab by (simp add: mem_pairs)
    then have mem: "(a, b) \<in> set ys \<or> (a, b) = r \<or> (a, b) \<in> set zs" using xs by auto
    have "(a, b) \<noteq> r" using bf ij by auto
    moreover have "(a, b) \<notin> set zs"
    proof
      assume "(a, b) \<in> set zs"
      then have "before r (a, b)" using after by blast
      then show False using bf ij by (auto simp: before_def)
    qed
    ultimately have "(a, b) \<in> set ys" using mem by blast
    then show ?thesis using lt ij by blast
  qed
  from m s have "(\<forall>a b. a < b \<and> b < n \<longrightarrow> f (i, j) \<le> f (a, b)) \<and>
           (\<forall>a b. a < b \<and> b < n \<and> (a < i \<or> (a = i \<and> b < j)) \<longrightarrow> f (i, j) < f (a, b))"
    by blast
  with r ij b show ?thesis by blast
qed

section \<open>The precondition yields a candidate\<close>

lemma float_value_D:
  assumes "float_value w x"
  shows "x = Fin (val x) \<and> round_to w (val x) = Fin (val x) \<and> \<bar>val x\<bar> \<le> max_finite w"
proof -
  from assms obtain a where a: "x = Fin a" "round_to w a = Fin a" by (cases x) simp_all
  from round_to_Fin_D [OF a(2)] a show ?thesis by simp
qed







section \<open>From the scan to the call\<close>

lemma square_in_bounds: "square n d \<Longrightarrow> length sv = n \<Longrightarrow> in_bounds d sv"
  by (simp add: square_def in_bounds_def)

lemma call_decode:
  assumes "itemtype2 dv = itemtype1 sv" and "in_bounds (rows dv) (elems sv)"
  shows "nj_minq_cy u dv sv =
         Inr (decode u (fst (a_run (round_to (itemtype2 dv)) (rows dv) (elems sv))))"
  using returned_a_run [OF assms] by (simp add: nj_minq_cy_def nj_minq_cy_run_def)

lemma call_mismatch:
  "itemtype2 dv \<noteq> itemtype1 sv \<Longrightarrow> nj_minq_cy u dv sv = Inl Dtype_mismatch"
  using returned_mismatch by (simp add: nj_minq_cy_def nj_minq_cy_run_def)

lemma exact_decode:
  assumes "itemtype2 dv = itemtype1 sv" and "in_bounds (rows dv) (elems sv)"
  shows "nj_minq_cy_exact u dv sv = Inr (decode u (fst (a_run Fin (rows dv) (elems sv))))"
  using returned_a_run [OF assms] by (simp add: nj_minq_cy_exact_def)

lemma exact_mismatch:
  "itemtype2 dv \<noteq> itemtype1 sv \<Longrightarrow> nj_minq_cy_exact u dv sv = Inl Dtype_mismatch"
  using returned_mismatch by (simp add: nj_minq_cy_exact_def)



lemma all_finite_reads:
  assumes "all_finite dv sv" and "square n (rows dv)" and "length (elems sv) = n"
  shows "finite_reads (rows dv) (elems sv)"
proof -
  have ld: "length (rows dv) = n" using assms(2) by (simp add: square_def)
  have s: "is_finite (elems sv ! i)" if "i < n" for i
  proof -
    have "elems sv ! i \<in> set (elems sv)" using that assms(3) by simp
    then show ?thesis using assms(1) by (simp add: all_finite_def)
  qed
  have d: "is_finite (rows dv ! i ! j)" if "i < n" "j < n" for i j
  proof -
    have r: "rows dv ! i \<in> set (rows dv)" using that ld by simp
    then have "length (rows dv ! i) = n" using assms(2) by (simp add: square_def)
    then have "rows dv ! i ! j \<in> set (rows dv ! i)" using that by simp
    then show ?thesis using assms(1) r by (simp add: all_finite_def)
  qed
  show ?thesis using s d ld by (simp add: finite_reads_def)
qed

lemma q_code_Q: "q_code d sv (i, j) = Q d sv i j"
  by (simp add: q_code_def Q_def mult.commute)

lemma a_run_first_min:
  assumes "exact_on r d sv" and "finite_reads d sv" and "2 \<le> length d"
  shows "\<exists>i j. fst (a_run r d sv) = Some (i, j) \<and> i < j \<and> j < length d \<and>
           (\<forall>a b. a < b \<and> b < length d \<longrightarrow> Q d sv i j \<le> Q d sv a b) \<and>
           (\<forall>a b. a < b \<and> b < length d \<and> (a < i \<or> (a = i \<and> b < j)) \<longrightarrow>
              Q d sv i j < Q d sv a b)"
  using pairs_first_min [OF assms(3), of "q_code d sv"] a_run_scan [OF assms(1,2)]
  unfolding q_code_Q by simp

lemma fold_a_row_idle:
  assumes "fst st = None" and "fst (snd st) = Infinity"
    and "\<not> (\<exists>i \<in> set is. \<exists>j \<in> {Suc i ..< length d}.
           fl_less (q_plus_of r d sv i j) (fl_add r Infinity (sv ! i)))"
  shows "fst (fold (a_row r d sv) is st) = None"
  using assms
proof (induction "is" arbitrary: st)
  case Nil
  then show ?case by simp
next
  case (Cons i "is")
  let ?st = "(None, Infinity, fl_add r Infinity (sv ! i))"
  have row: "a_row r d sv i st = fold (a_step r d sv i) [Suc i ..< length d] ?st"
    using Cons.prems(1,2) by (simp add: a_row_def)
  have no: "\<not> (\<exists>j \<in> set [Suc i ..< length d].
      fl_less (q_plus_of r d sv i j) (fl_add r Infinity (sv ! i)))"
    using Cons.prems(3) by simp
  from fold_a_step_idle [OF refl no] have same: "a_row r d sv i st = ?st" using row by simp
  have "fst (fold (a_row r d sv) is ?st) = None"
    by (rule Cons.IH) (use Cons.prems(3) in simp_all)
  then show ?case using same by simp
qed

lemma a_run_idle: "\<not> candidate_below r d sv \<Longrightarrow> fst (a_run r d sv) = None"
  unfolding a_run_def
  by (rule fold_a_row_idle) (auto simp: candidate_below_def)

section \<open>Frame and faults\<close>

lemma inner_body_frame:
  "inner_body r n_2 i j s = Inr s' \<Longrightarrow> dm s' = dm s \<and> sums_v s' = sums_v s"
  by (auto simp: inner_body_def Let_def split: sum.splits if_splits)

lemma for_loop_frame:
  assumes "\<And>k s s'. body k s = Inr s' \<Longrightarrow> dm s' = dm s \<and> sums_v s' = sums_v s"
  shows "for_loop ks body s = Inr s' \<Longrightarrow> dm s' = dm s \<and> sums_v s' = sums_v s"
proof (induction ks arbitrary: s)
  case Nil
  then show ?case by simp
next
  case (Cons k ks)
  from Cons.prems obtain s1 where b: "body k s = Inr s1" and l: "for_loop ks body s1 = Inr s'"
    by (auto split: sum.splits)
  from assms [OF b] Cons.IH [OF l] show ?case by simp
qed

lemma outer_body_frame:
  assumes "outer_body r n n_2 i s = Inr s'"
  shows "dm s' = dm s \<and> sums_v s' = sums_v s"
proof -
  from assms obtain si where
    l: "for_loop [Suc i ..< n] (inner_body r n_2 i) (s\<lparr>min_q_plus := fl_add r (min_q s) si\<rparr>) = Inr s'"
    by (auto simp: outer_body_def split: sum.splits)
  from for_loop_frame [of "inner_body r n_2 i", OF inner_body_frame l] show ?thesis by simp
qed

lemma run_with_frame:
  assumes "run_with r u dv sv = Inr s"
  shows "dm s = rows dv \<and> sums_v s = elems sv"
proof -
  let ?n = "length (rows dv)"
  from assms have
    l: "for_loop [0 ..< ?n] (outer_body r ?n (r (real ?n - 2))) (entry_frame u (rows dv) (elems sv)) = Inr s"
    by (simp add: run_with_def nj_minq_cy_body_def Let_def split: if_splits)
  from for_loop_frame [of "outer_body r ?n (r (real ?n - 2))", OF outer_body_frame l]
  show ?thesis by (simp add: entry_frame_def)
qed

lemma inner_body_fault: "inner_body r n_2 i j s = Inl e \<Longrightarrow> e = Unchecked_read"
  by (auto simp: inner_body_def dm_at_def sums_at_def Let_def split: sum.splits if_splits)

lemma for_loop_fault:
  assumes "\<And>k s e. body k s = Inl e \<Longrightarrow> e = Unchecked_read"
  shows "for_loop ks body s = Inl e \<Longrightarrow> e = Unchecked_read"
proof (induction ks arbitrary: s)
  case Nil
  then show ?case by simp
next
  case (Cons k ks)
  show ?case
  proof (cases "body k s")
    case (Inl e')
    then show ?thesis using Cons.prems assms [of k s e'] by simp
  next
    case (Inr s1)
    then show ?thesis using Cons.prems Cons.IH [of s1] by simp
  qed
qed

lemma outer_body_fault: "outer_body r n n_2 i s = Inl e \<Longrightarrow> e = Unchecked_read"
proof -
  assume a: "outer_body r n n_2 i s = Inl e"
  show ?thesis
  proof (cases "sums_at s i")
    case (Inl e')
    then show ?thesis using a by (auto simp: outer_body_def sums_at_def split: if_splits)
  next
    case (Inr si)
    then have "for_loop [Suc i ..< n] (inner_body r n_2 i) (s\<lparr>min_q_plus := fl_add r (min_q s) si\<rparr>) = Inl e"
      using a by (simp add: outer_body_def)
    from for_loop_fault [of "inner_body r n_2 i", OF inner_body_fault this] show ?thesis .
  qed
qed

lemma body_fault: "nj_minq_cy_body r u d sv = Inl e \<Longrightarrow> e = Unchecked_read"
  unfolding nj_minq_cy_body_def Let_def
  by (rule for_loop_fault [of "outer_body r (length d) (r (real (length d) - 2))", OF outer_body_fault])

section \<open>Two nodes, and a shift of the sums\<close>

lemma two_nodes_candidate:
  assumes "length d = 2" and "float_value w (d ! 0 ! 1)" and "float_value w (sv ! 0)"
    and "float_value w (sv ! 1)"
  shows "candidate_below (round_to w) d sv"
proof -
  from float_value_D [OF assms(2)] obtain a where a: "d ! 0 ! 1 = Fin a" by blast
  from float_value_D [OF assms(3)] obtain c where c: "sv ! 0 = Fin c" by blast
  from float_value_D [OF assms(4)] obtain b where b: "sv ! 1 = Fin b" "round_to w b = Fin b"
    by blast
  have "q_plus_of (round_to w) d sv 0 1 = Fin (- b)"
    using assms(1) a b by (simp add: q_plus_of_def fl_sub_def round_to_zero round_to_minus)
  then have "fl_less (q_plus_of (round_to w) d sv 0 1) (fl_add (round_to w) Infinity (sv ! 0))"
    using c by simp
  moreover have "(0::nat) \<in> {0 ..< length d}" "(1::nat) \<in> {Suc 0 ..< length d}"
    using assms(1) by simp_all
  ultimately show ?thesis unfolding candidate_below_def by (metis One_nat_def)
qed

lemma shift_scan:
  assumes "length d \<le> length sv" and "\<forall>x \<in> set sv. is_finite x"
  shows "scan (q_code d (map (\<lambda>x. fl_add Fin x (Fin c)) sv)) (pairs (length d)) None =
         scan (q_code d sv) (pairs (length d)) None"
proof (rule scan_same_order)
  have v: "val (map (\<lambda>x. fl_add Fin x (Fin c)) sv ! k) = val (sv ! k) + c" if "k < length sv" for k
  proof -
    have "is_finite (sv ! k)" using assms(2) that by simp
    then obtain a where "sv ! k = Fin a" using is_finite_D by blast
    then show ?thesis using that by simp
  qed
  have "q_code d (map (\<lambda>x. fl_add Fin x (Fin c)) sv) p = q_code d sv p - 2 * c"
    if "p \<in> set (pairs (length d))" for p
  proof -
    obtain a b where p: "p = (a, b)" by (cases p)
    with that have "a < length sv" "b < length sv" using assms(1) by (auto simp: mem_pairs)
    then show ?thesis using p v by (simp add: q_code_def)
  qed
  then show "\<forall>x \<in> set (pairs (length d)) \<union> set_option None.
        \<forall>y \<in> set (pairs (length d)) \<union> set_option None.
          (q_code d (map (\<lambda>x. fl_add Fin x (Fin c)) sv) x < q_code d (map (\<lambda>x. fl_add Fin x (Fin c)) sv) y) =
          (q_code d sv x < q_code d sv y)"
    by simp
qed

lemma exact_on_Fin: "exact_on Fin d sv"
  by (simp add: exact_on_def exact_at_def)

section \<open>The claims\<close>







text \<open>
  \<^bold>\<open>C3\<close> (no validation), as amended.  The function checks neither \<open>n\<close> nor the length
  of \<open>sums\<close>: whenever the element types agree and the reads stay inside the buffers
  (\<open>sums\<close> has at least \<open>n\<close> entries, equal to \<open>n\<close> or not), the call does not fail and
  returns a pair of integers; for \<open>n < 2\<close> that pair is what \<open>min_i\<close> and \<open>min_j\<close> held
  on entry, since no assignment to them is reached.
\<close>

theorem nj_minq_cy_no_validation:
  assumes "itemtype2 dv = itemtype1 sv" and "in_bounds (rows dv) (elems sv)"
  shows "\<exists>p. nj_minq_cy u dv sv = Inr p \<and>
           (length (rows dv) < 2 \<longrightarrow> p = (u_min_i u, u_min_j u))"
proof -
  have "length (rows dv) < 2 \<longrightarrow>
      decode u (fst (a_run (round_to (itemtype2 dv)) (rows dv) (elems sv))) = (u_min_i u, u_min_j u)"
    by (simp add: a_run_small)
  then show ?thesis using call_decode [OF assms, of u] by simp
qed

theorem nj_minq_cy_no_validation_witness:
  "itemtype2 ex_dm1 = itemtype1 ex_sums1 \<and> in_bounds (rows ex_dm1) (elems ex_sums1) \<and>
   length (rows ex_dm1) < 2 \<and> nj_minq_cy ex_u ex_dm1 ex_sums1 = Inr (7, 9) \<and>
   itemtype2 ex_dm2 = itemtype1 ex_sums2_long \<and>
   in_bounds (rows ex_dm2) (elems ex_sums2_long) \<and>
   length (elems ex_sums2_long) \<noteq> length (rows ex_dm2) \<and>
   (\<exists>p. nj_minq_cy ex_u ex_dm2 ex_sums2_long = Inr p)"
proof -
  have a1: "itemtype2 ex_dm1 = itemtype1 ex_sums1" by simp
  have a2: "in_bounds (rows ex_dm1) (elems ex_sums1)" by (simp add: pred_eval)
  have b1: "itemtype2 ex_dm2 = itemtype1 ex_sums2_long" by simp
  have b2: "in_bounds (rows ex_dm2) (elems ex_sums2_long)" by (simp add: pred_eval)
  from nj_minq_cy_no_validation [OF a1 a2, of ex_u]
  have "nj_minq_cy ex_u ex_dm1 ex_sums1 = Inr (7, 9)" by simp
  moreover from nj_minq_cy_no_validation [OF b1 b2, of ex_u]
  have "\<exists>p. nj_minq_cy ex_u ex_dm2 ex_sums2_long = Inr p" by blast
  ultimately show ?thesis using a1 a2 b2 by simp
qed

text \<open>
  The claim as first stated, that a call with \<open>n < 2\<close> or with a length of \<open>sums\<close> other
  than \<open>n\<close> fails instead of returning a pair, is false: a \<open>1 \<times> 1\<close> matrix returns the
  contents of the unassigned locals, and a \<open>2 \<times> 2\<close> matrix with three sums returns
  \<open>(0, 1)\<close>.
\<close>

theorem nj_minq_cy_unchecked_counterexample:
  "length (rows ex_dm1) < 2 \<and> nj_minq_cy ex_u ex_dm1 ex_sums1 = Inr (7, 9) \<and>
   length (elems ex_sums2_long) \<noteq> length (rows ex_dm2) \<and>
   nj_minq_cy ex_u ex_dm2 ex_sums2_long = Inr (0, 1)"
  by (simp add: run_eval round_eval)



text \<open>
  \<^bold>\<open>C5\<close> (no side effects).  Whenever the run returns, the buffers \<open>dm\<close> and \<open>sums\<close> of
  its final frame are those it was called with; and it does return whenever the element
  types agree and the reads stay inside the buffers.
\<close>

theorem nj_minq_cy_leaves_buffers:
  "(\<forall>s. nj_minq_cy_run u dv sv = Inr s \<longrightarrow> dm s = rows dv \<and> sums_v s = elems sv) \<and>
   (itemtype2 dv = itemtype1 sv \<and> in_bounds (rows dv) (elems sv) \<longrightarrow>
      (\<exists>s. nj_minq_cy_run u dv sv = Inr s))"
proof -
  have "\<exists>s. nj_minq_cy_run u dv sv = Inr s"
    if "itemtype2 dv = itemtype1 sv \<and> in_bounds (rows dv) (elems sv)"
    using that run_with_a_run [of dv sv "round_to (itemtype2 dv)" u]
    by (auto simp: nj_minq_cy_run_def)
  then show ?thesis
    using run_with_frame [of "round_to (itemtype2 dv)" u dv sv]
    by (auto simp: nj_minq_cy_run_def)
qed

theorem nj_minq_cy_leaves_buffers_witness:
  "itemtype2 ex_dm3 = itemtype1 ex_sums3 \<and> in_bounds (rows ex_dm3) (elems ex_sums3) \<and>
   (\<exists>s. nj_minq_cy_run ex_u ex_dm3 ex_sums3 = Inr s \<and>
      dm s = [[Fin 0, Fin 5, Fin 9], [Fin 5, Fin 0, Fin 10], [Fin 9, Fin 10, Fin 0]] \<and>
      sums_v s = [Fin 14, Fin 15, Fin 19])"
proof -
  have h1: "itemtype2 ex_dm3 = itemtype1 ex_sums3" by simp
  have h2: "in_bounds (rows ex_dm3) (elems ex_sums3)" by (simp add: pred_eval)
  from nj_minq_cy_leaves_buffers [of ex_u ex_dm3 ex_sums3] h1 h2
  obtain s where s: "nj_minq_cy_run ex_u ex_dm3 ex_sums3 = Inr s" by blast
  with nj_minq_cy_leaves_buffers [of ex_u ex_dm3 ex_sums3]
  have "dm s = rows ex_dm3 \<and> sums_v s = elems ex_sums3" by blast
  with s h1 h2 show ?thesis by simp
qed

text \<open>
  \<^bold>\<open>C6\<close> (determinism), as amended.  For an \<open>n \<times> n\<close> matrix and \<open>n\<close> sums: when some
  pair \<open>i < j\<close> has its key \<open>dm[i, j] * n_2 - sums[j]\<close> below \<open>INFINITY + sums[i]\<close>, two
  calls on the same buffers return the same result, whatever the unassigned locals
  held at each call; when no pair has (\<open>n < 2\<close>, or every key is NaN or \<open>INFINITY\<close>), a
  call returns what its unassigned locals held.  The second witness is a finite
  \<open>float\<close> input on which every key overflows.
\<close>

theorem nj_minq_cy_reproducible:
  assumes "square n (rows dv)" and "length (elems sv) = n"
  shows "(candidate_below (round_to (itemtype2 dv)) (rows dv) (elems sv) \<longrightarrow>
            nj_minq_cy u1 dv sv = nj_minq_cy u2 dv sv) \<and>
         (\<not> candidate_below (round_to (itemtype2 dv)) (rows dv) (elems sv) \<and>
          itemtype2 dv = itemtype1 sv \<longrightarrow>
            nj_minq_cy u1 dv sv = Inr (u_min_i u1, u_min_j u1))"
proof (cases "itemtype2 dv = itemtype1 sv")
  case False
  then show ?thesis by (simp add: call_mismatch)
next
  case True
  let ?r = "round_to (itemtype2 dv)"
  have ib: "in_bounds (rows dv) (elems sv)" using assms by (rule square_in_bounds)
  have a: "nj_minq_cy u1 dv sv = nj_minq_cy u2 dv sv"
    if "candidate_below ?r (rows dv) (elems sv)"
  proof -
    from a_run_assigns [OF that] obtain p where "fst (a_run ?r (rows dv) (elems sv)) = Some p"
      by auto
    then show ?thesis using call_decode [OF True ib] by simp
  qed
  have b: "nj_minq_cy u1 dv sv = Inr (u_min_i u1, u_min_j u1)"
    if "\<not> candidate_below ?r (rows dv) (elems sv)"
    using a_run_idle [OF that] call_decode [OF True ib, of u1] by simp
  from a b show ?thesis by blast
qed

theorem nj_minq_cy_reproducible_witness:
  "square 3 (rows ex_dm3) \<and> length (elems ex_sums3) = 3 \<and>
   candidate_below (round_to (itemtype2 ex_dm3)) (rows ex_dm3) (elems ex_sums3) \<and>
   nj_minq_cy ex_u ex_dm3 ex_sums3 = nj_minq_cy ex_u' ex_dm3 ex_sums3 \<and>
   square 3 (rows ex_dm3o) \<and> length (elems ex_sums3o) = 3 \<and>
   \<not> candidate_below (round_to (itemtype2 ex_dm3o)) (rows ex_dm3o) (elems ex_sums3o) \<and>
   itemtype2 ex_dm3o = itemtype1 ex_sums3o \<and>
   nj_minq_cy ex_u ex_dm3o ex_sums3o = Inr (7, 9)"
proof -
  have h1: "square 3 (rows ex_dm3)" by (simp add: pred_eval)
  have h2: "length (elems ex_sums3) = 3" by simp
  have h3: "candidate_below (round_to (itemtype2 ex_dm3)) (rows ex_dm3) (elems ex_sums3)"
    by (simp add: pred_eval round_eval)
  have k1: "square 3 (rows ex_dm3o)" by (simp add: pred_eval)
  have k2: "length (elems ex_sums3o) = 3" by simp
  have k3: "\<not> candidate_below (round_to (itemtype2 ex_dm3o)) (rows ex_dm3o) (elems ex_sums3o)"
    by (auto simp: pred_eval round_eval)
  have k4: "itemtype2 ex_dm3o = itemtype1 ex_sums3o" by simp
  from nj_minq_cy_reproducible [OF h1 h2, of ex_u ex_u'] h3
  have r1: "nj_minq_cy ex_u ex_dm3 ex_sums3 = nj_minq_cy ex_u' ex_dm3 ex_sums3" by blast
  from nj_minq_cy_reproducible [OF k1 k2, of ex_u ex_u'] k3 k4
  have r2: "nj_minq_cy ex_u ex_dm3o ex_sums3o = Inr (7, 9)" by simp
  from h1 h2 h3 k1 k2 k3 k4 r1 r2 show ?thesis by blast
qed

text \<open>
  The claim as first stated, for every pair of calls on equal inputs, is false: on a
  \<open>1 \<times> 1\<close> matrix the result is the contents of \<open>min_i\<close> and \<open>min_j\<close> on entry, which
  the inputs do not determine.
\<close>

theorem nj_minq_cy_unassigned_counterexample:
  "nj_minq_cy ex_u ex_dm1 ex_sums1 \<noteq> nj_minq_cy ex_u' ex_dm1 ex_sums1"
  by (simp add: run_eval round_eval)

text \<open>
  \<^bold>\<open>C7\<close> (one floating-point width).  A call whose matrix and sum vector have different
  element types is rejected with \<open>Dtype_mismatch\<close> and computes nothing; a call at one
  element type, \<open>float\<close> or \<open>double\<close>, is never rejected so, and returns a pair when the
  reads stay inside the buffers.
\<close>

theorem nj_minq_cy_one_width:
  "(itemtype2 dv \<noteq> itemtype1 sv \<longrightarrow> nj_minq_cy u dv sv = Inl Dtype_mismatch) \<and>
   (itemtype2 dv = itemtype1 sv \<longrightarrow> nj_minq_cy u dv sv \<noteq> Inl Dtype_mismatch) \<and>
   (itemtype2 dv = itemtype1 sv \<and> in_bounds (rows dv) (elems sv) \<longrightarrow>
      (\<exists>p. nj_minq_cy u dv sv = Inr p))"
proof -
  have a: "nj_minq_cy u dv sv \<noteq> Inl Dtype_mismatch" if t: "itemtype2 dv = itemtype1 sv"
  proof
    assume "nj_minq_cy u dv sv = Inl Dtype_mismatch"
    then have "nj_minq_cy_body (round_to (itemtype2 dv)) u (rows dv) (elems sv) = Inl Dtype_mismatch"
      using t by (simp add: nj_minq_cy_def nj_minq_cy_run_def run_with_def returned_def
          split: sum.splits)
    from body_fault [OF this] show False by simp
  qed
  have b: "\<exists>p. nj_minq_cy u dv sv = Inr p"
    if "itemtype2 dv = itemtype1 sv \<and> in_bounds (rows dv) (elems sv)"
    using that call_decode [of dv sv u] by simp
  from a b call_mismatch [of dv sv u] show ?thesis by blast
qed

theorem nj_minq_cy_one_width_witness:
  "itemtype2 ex_dm2 \<noteq> itemtype1 ex_sums3 \<and>
   nj_minq_cy ex_u ex_dm2 ex_sums3 = Inl Dtype_mismatch \<and>
   itemtype2 ex_dm2 = itemtype1 ex_sums2 \<and> in_bounds (rows ex_dm2) (elems ex_sums2) \<and>
   nj_minq_cy ex_u ex_dm2 ex_sums2 \<noteq> Inl Dtype_mismatch \<and>
   (\<exists>p. nj_minq_cy ex_u ex_dm2 ex_sums2 = Inr p) \<and>
   itemtype2 ex_dm3 = itemtype1 ex_sums3 \<and> in_bounds (rows ex_dm3) (elems ex_sums3) \<and>
   (\<exists>p. nj_minq_cy ex_u ex_dm3 ex_sums3 = Inr p)"
proof -
  have h1: "itemtype2 ex_dm2 \<noteq> itemtype1 ex_sums3" by simp
  have h2: "itemtype2 ex_dm2 = itemtype1 ex_sums2" by simp
  have h3: "in_bounds (rows ex_dm2) (elems ex_sums2)" by (simp add: pred_eval)
  have h4: "itemtype2 ex_dm3 = itemtype1 ex_sums3" by simp
  have h5: "in_bounds (rows ex_dm3) (elems ex_sums3)" by (simp add: pred_eval)
  from nj_minq_cy_one_width [of ex_dm2 ex_sums3 ex_u] h1
  have r1: "nj_minq_cy ex_u ex_dm2 ex_sums3 = Inl Dtype_mismatch" by blast
  from nj_minq_cy_one_width [of ex_dm2 ex_sums2 ex_u] h2 h3
  have r2: "nj_minq_cy ex_u ex_dm2 ex_sums2 \<noteq> Inl Dtype_mismatch \<and>
            (\<exists>p. nj_minq_cy ex_u ex_dm2 ex_sums2 = Inr p)" by blast
  from nj_minq_cy_one_width [of ex_dm3 ex_sums3 ex_u] h4 h5
  have r3: "\<exists>p. nj_minq_cy ex_u ex_dm3 ex_sums3 = Inr p" by blast
  from h1 h2 h3 h4 h5 r1 r2 r3 show ?thesis by blast
qed

text \<open>
  \<^bold>\<open>C8\<close> (only the strict upper triangle is read), as amended.  For \<open>n \<ge> 2\<close>, two
  \<open>n \<times> n\<close> matrices of one element type that agree at every \<open>(i, j)\<close> with \<open>i < j\<close>, and
  the same \<open>n\<close> sums, give the same result when the unassigned locals hold the same at
  both calls; and whatever they hold when some pair has its key below
  \<open>INFINITY + sums[i]\<close>.  The diagonal and the lower triangle do not matter (in the
  witness they hold NaN and an infinity), and neither symmetry nor a zero diagonal is
  needed.
\<close>

theorem nj_minq_cy_upper_triangle_only:
  assumes "2 \<le> n" and "itemtype2 dv1 = itemtype2 dv2"
    and "square n (rows dv1)" and "square n (rows dv2)" and "length (elems sv) = n"
    and "\<forall>i j. i < j \<and> j < n \<longrightarrow> rows dv1 ! i ! j = rows dv2 ! i ! j"
  shows "nj_minq_cy u dv1 sv = nj_minq_cy u dv2 sv \<and>
         (candidate_below (round_to (itemtype2 dv1)) (rows dv1) (elems sv) \<longrightarrow>
            nj_minq_cy u1 dv1 sv = nj_minq_cy u2 dv2 sv)"
proof (cases "itemtype2 dv1 = itemtype1 sv")
  case False
  then have "itemtype2 dv2 \<noteq> itemtype1 sv" using assms(2) by simp
  then show ?thesis using False by (simp add: call_mismatch)
next
  case True
  then have t2: "itemtype2 dv2 = itemtype1 sv" using assms(2) by simp
  let ?r = "round_to (itemtype2 dv1)"
  have n1: "length (rows dv1) = n" using assms(3) by (simp add: square_def)
  have n2: "length (rows dv2) = n" using assms(4) by (simp add: square_def)
  have ib1: "in_bounds (rows dv1) (elems sv)" using assms(3,5) by (rule square_in_bounds)
  have ib2: "in_bounds (rows dv2) (elems sv)" using assms(4,5) by (rule square_in_bounds)
  have eq: "a_run ?r (rows dv1) (elems sv) = a_run ?r (rows dv2) (elems sv)"
    by (rule a_run_cong) (use n1 n2 assms(6) in simp_all)
  have c1: "nj_minq_cy v dv1 sv = Inr (decode v (fst (a_run ?r (rows dv1) (elems sv))))" for v
    by (rule call_decode [OF True ib1])
  have c2: "nj_minq_cy v dv2 sv = Inr (decode v (fst (a_run ?r (rows dv1) (elems sv))))" for v
    using call_decode [OF t2 ib2, of v] eq assms(2) by simp
  have same: "nj_minq_cy u dv1 sv = nj_minq_cy u dv2 sv" using c1 c2 by simp
  have any: "nj_minq_cy u1 dv1 sv = nj_minq_cy u2 dv2 sv"
    if "candidate_below ?r (rows dv1) (elems sv)"
  proof -
    from a_run_assigns [OF that] obtain p where "fst (a_run ?r (rows dv1) (elems sv)) = Some p"
      by auto
    then show ?thesis using c1 [of u1] c2 [of u2] by simp
  qed
  from same any show ?thesis by blast
qed

theorem nj_minq_cy_upper_triangle_only_witness:
  "(2::nat) \<le> 3 \<and> itemtype2 ex_dm3 = itemtype2 ex_dm3_lower \<and>
   square 3 (rows ex_dm3) \<and> square 3 (rows ex_dm3_lower) \<and> length (elems ex_sums3) = 3 \<and>
   rows ex_dm3 \<noteq> rows ex_dm3_lower \<and>
   candidate_below (round_to (itemtype2 ex_dm3)) (rows ex_dm3) (elems ex_sums3) \<and>
   nj_minq_cy ex_u ex_dm3 ex_sums3 = nj_minq_cy ex_u ex_dm3_lower ex_sums3 \<and>
   nj_minq_cy ex_u ex_dm3 ex_sums3 = nj_minq_cy ex_u' ex_dm3_lower ex_sums3"
proof -
  have h1: "(2::nat) \<le> 3" by simp
  have h2: "itemtype2 ex_dm3 = itemtype2 ex_dm3_lower" by simp
  have h3: "square 3 (rows ex_dm3)" by (simp add: pred_eval)
  have h4: "square 3 (rows ex_dm3_lower)" by (simp add: pred_eval)
  have h5: "length (elems ex_sums3) = 3" by simp
  have h6: "\<forall>i j. i < j \<and> j < 3 \<longrightarrow> rows ex_dm3 ! i ! j = rows ex_dm3_lower ! i ! j"
  proof (intro allI impI)
    fix i j :: nat
    assume "i < j \<and> j < 3"
    then have "(i = 0 \<and> j = 1) \<or> (i = 0 \<and> j = 2) \<or> (i = 1 \<and> j = 2)" by auto
    then show "rows ex_dm3 ! i ! j = rows ex_dm3_lower ! i ! j" by auto
  qed
  have h7: "rows ex_dm3 \<noteq> rows ex_dm3_lower" by simp
  have h8: "candidate_below (round_to (itemtype2 ex_dm3)) (rows ex_dm3) (elems ex_sums3)"
    by (simp add: pred_eval round_eval)
  from nj_minq_cy_upper_triangle_only [OF h1 h2 h3 h4 h5 h6, of ex_u ex_u ex_u'] h1 h2 h3 h4 h5 h7 h8
  show ?thesis by blast
qed

text \<open>
  The claim as first stated, equal returned pairs for every two such inputs, is false:
  on the finite \<open>float\<close> matrices \<open>ex_dm3o\<close> and \<open>ex_dm3o_lower\<close>, equal above the
  diagonal, every key \<open>2 ^ 127 * 1 + 2 ^ 127\<close> overflows to \<open>INFINITY\<close>, nothing is
  assigned, and each call returns what its unassigned locals held.
\<close>

theorem nj_minq_cy_overflow_counterexample:
  "itemtype2 ex_dm3o = itemtype2 ex_dm3o_lower \<and>
   square 3 (rows ex_dm3o) \<and> square 3 (rows ex_dm3o_lower) \<and> length (elems ex_sums3o) = 3 \<and>
   rows ex_dm3o ! 0 ! 1 = rows ex_dm3o_lower ! 0 ! 1 \<and>
   rows ex_dm3o ! 0 ! 2 = rows ex_dm3o_lower ! 0 ! 2 \<and>
   rows ex_dm3o ! 1 ! 2 = rows ex_dm3o_lower ! 1 ! 2 \<and>
   finite_entries ex_dm3o ex_sums3o \<and> finite_entries ex_dm3o_lower ex_sums3o \<and>
   nj_minq_cy ex_u ex_dm3o ex_sums3o = Inr (7, 9) \<and>
   nj_minq_cy ex_u' ex_dm3o_lower ex_sums3o = Inr (0, 0)"
proof -
  have "square 3 (rows ex_dm3o) \<and> square 3 (rows ex_dm3o_lower)" by (simp add: pred_eval)
  moreover have "finite_entries ex_dm3o ex_sums3o" by (simp add: pred_eval round_eval)
  moreover have "finite_entries ex_dm3o_lower ex_sums3o" by (simp add: pred_eval round_eval)
  moreover have "nj_minq_cy ex_u ex_dm3o ex_sums3o = Inr (7, 9)"
    by (simp add: run_eval round_eval)
  moreover have "nj_minq_cy ex_u' ex_dm3o_lower ex_sums3o = Inr (0, 0)"
    by (simp add: run_eval round_eval)
  ultimately show ?thesis by simp
qed

text \<open>
  \<^bold>\<open>C9\<close> (two nodes).  For \<open>n = 2\<close> and finite entries the call returns \<open>(0, 1)\<close>,
  whatever the matrix and the sums hold: \<open>n_2\<close> is zero, so the key of the only
  candidate is \<open>- sums[1]\<close>, which is below the initial \<open>INFINITY\<close>.
\<close>

theorem nj_minq_cy_two_nodes:
  assumes "itemtype2 dv = itemtype1 sv" and "square 2 (rows dv)" and "length (elems sv) = 2"
    and "finite_entries dv sv"
  shows "nj_minq_cy u dv sv = Inr (0, 1)"
proof -
  let ?w = "itemtype2 dv"
  have n: "length (rows dv) = 2" using assms(2) by (simp add: square_def)
  have ib: "in_bounds (rows dv) (elems sv)" using assms(2,3) by (rule square_in_bounds)
  have r0: "rows dv ! 0 \<in> set (rows dv)" using n by simp
  then have "length (rows dv ! 0) = 2" using assms(2) by (simp add: square_def)
  then have "rows dv ! 0 ! 1 \<in> set (rows dv ! 0)" by simp
  then have f1: "float_value ?w (rows dv ! 0 ! 1)" using assms(4) r0 by (simp add: finite_entries_def)
  have "elems sv ! 0 \<in> set (elems sv)" "elems sv ! 1 \<in> set (elems sv)" using assms(3) by simp_all
  then have f2: "float_value ?w (elems sv ! 0)" "float_value ?w (elems sv ! 1)"
    using assms(4,1) by (simp_all add: finite_entries_def)
  have "candidate_below (round_to ?w) (rows dv) (elems sv)"
    by (rule two_nodes_candidate [OF n f1 f2])
  then have "fst (a_run (round_to ?w) (rows dv) (elems sv)) \<noteq> None" by (rule a_run_assigns)
  then obtain i j where b: "fst (a_run (round_to ?w) (rows dv) (elems sv)) = Some (i, j)"
    by auto
  from a_run_range [OF b] have "i < j" "j < 2" using n by simp_all
  then have "i = 0 \<and> j = 1" by auto
  then show ?thesis using call_decode [OF assms(1) ib, of u] b by simp
qed

theorem nj_minq_cy_two_nodes_witness:
  "itemtype2 ex_dm2 = itemtype1 ex_sums2 \<and> square 2 (rows ex_dm2) \<and>
   length (elems ex_sums2) = 2 \<and> finite_entries ex_dm2 ex_sums2 \<and>
   nj_minq_cy ex_u ex_dm2 ex_sums2 = Inr (0, 1)"
proof -
  have h1: "itemtype2 ex_dm2 = itemtype1 ex_sums2" by simp
  have h2: "square 2 (rows ex_dm2)" by (simp add: pred_eval)
  have h3: "length (elems ex_sums2) = 2" by simp
  have h4: "finite_entries ex_dm2 ex_sums2" by (simp add: pred_eval round_eval)
  from nj_minq_cy_two_nodes [OF h1 h2 h3 h4, of ex_u] h1 h2 h3 h4 show ?thesis by blast
qed

text \<open>
  \<^bold>\<open>C10\<close> (shift of the sums).  In exact arithmetic, for \<open>n \<ge> 2\<close>, finite entries and
  every constant \<open>c\<close>, adding \<open>c\<close> to every entry of \<open>sums\<close> does not change the result.
  The statement is about \<open>nj_minq_cy_exact\<close>; with rounding it does not hold.
\<close>

theorem nj_minq_cy_shift_invariant:
  assumes "2 \<le> n" and "square n (rows dv)" and "length (elems sv) = n" and "all_finite dv sv"
  shows "nj_minq_cy_exact u1 dv (sv\<lparr>elems := map (\<lambda>x. fl_add Fin x (Fin c)) (elems sv)\<rparr>) =
         nj_minq_cy_exact u2 dv sv"
proof (cases "itemtype2 dv = itemtype1 sv")
  case False
  then show ?thesis by (simp add: exact_mismatch)
next
  case True
  let ?sv = "sv\<lparr>elems := map (\<lambda>x. fl_add Fin x (Fin c)) (elems sv)\<rparr>"
  have n: "length (rows dv) = n" using assms(2) by (simp add: square_def)
  have ib: "in_bounds (rows dv) (elems sv)" using assms(2,3) by (rule square_in_bounds)
  have ib': "in_bounds (rows dv) (elems ?sv)" using assms(2,3) by (simp add: square_in_bounds)
  have fin: "\<forall>x \<in> set (elems sv). is_finite x" using assms(4) by (simp add: all_finite_def)
  have af': "all_finite dv ?sv"
  proof -
    have "is_finite (fl_add Fin x (Fin c))" if "is_finite x" for x
      using that by (cases x) simp_all
    then show ?thesis using assms(4) by (simp add: all_finite_def)
  qed
  have fr: "finite_reads (rows dv) (elems sv)" using assms(4,2,3) by (rule all_finite_reads)
  have fr': "finite_reads (rows dv) (elems ?sv)"
    by (rule all_finite_reads [OF af' assms(2)]) (use assms(3) in simp)
  have sc: "scan (q_code (rows dv) (elems ?sv)) (pairs (length (rows dv))) None =
            scan (q_code (rows dv) (elems sv)) (pairs (length (rows dv))) None"
    using shift_scan [of "rows dv" "elems sv" c] n assms(3) fin by simp
  have "fst (a_run Fin (rows dv) (elems ?sv)) = fst (a_run Fin (rows dv) (elems sv))"
    using a_run_scan [OF exact_on_Fin fr] a_run_scan [OF exact_on_Fin fr'] sc by simp
  moreover have "2 \<le> length (rows dv)" using n assms(1) by simp
  from a_run_first_min [OF exact_on_Fin fr this] obtain i j where
    "fst (a_run Fin (rows dv) (elems sv)) = Some (i, j)" by blast
  ultimately show ?thesis
    using exact_decode [OF True ib, of u2] exact_decode [of dv ?sv u1] True ib' by simp
qed

theorem nj_minq_cy_shift_invariant_witness:
  "(2::nat) \<le> 3 \<and> square 3 (rows ex_dm3) \<and> length (elems ex_sums3) = 3 \<and>
   all_finite ex_dm3 ex_sums3 \<and>
   nj_minq_cy_exact ex_u ex_dm3 \<lparr>itemtype1 = C_double, elems = [Fin 114, Fin 115, Fin 119]\<rparr> =
   nj_minq_cy_exact ex_u' ex_dm3 ex_sums3"
proof -
  have h1: "(2::nat) \<le> 3" by simp
  have h2: "square 3 (rows ex_dm3)" by (simp add: pred_eval)
  have h3: "length (elems ex_sums3) = 3" by simp
  have h4: "all_finite ex_dm3 ex_sums3" by (simp add: pred_eval)
  from nj_minq_cy_shift_invariant [OF h1 h2 h3 h4, of ex_u 100 ex_u'] h1 h2 h3 h4
  show ?thesis by simp
qed

end
